theory Spec2Isabelle
  imports Complex_Main "HOL-Library.Char_ord" "HOL-Library.List_Lexorder"
begin

section \<open>Arrays, labels and errors\<close>

text \<open>
  The numeric code of \<^verbatim>\<open>predictors/rsa.py\<close> and \<^verbatim>\<open>hebart_comparison.py\<close> works on
  two-dimensional numpy arrays of floats.  An array is modelled as the list of its rows.
  Arithmetic is the arithmetic of the real numbers: rounding, overflow of \<open>exp\<close> and
  not-a-number values are outside the model, except where a definition says otherwise.
  Python exceptions are values of the type \<open>error\<close>.
\<close>

datatype error = AssertionError | IndexError | KeyError | ValueError

type_synonym array2 = "real list list"

definition shape0 :: "'a list list \<Rightarrow> nat" where
  "shape0 M = length M"

definition shape1 :: "'a list list \<Rightarrow> nat" where
  "shape1 M = (case M of [] \<Rightarrow> 0 | r # _ \<Rightarrow> length r)"

text \<open>\<^verbatim>\<open>zeros((r, c))\<close>.\<close>

definition zeros2 :: "nat \<Rightarrow> nat \<Rightarrow> array2" where
  "zeros2 r c = replicate r (replicate c 0)"

text \<open>\<^verbatim>\<open>transpose(M)\<close> of a square array.\<close>

definition transpose_np :: "'a list list \<Rightarrow> 'a list list" where
  "transpose_np M = map (\<lambda>j. map (\<lambda>i. M ! i ! j) [0..<length M]) [0..<length M]"

text \<open>\<^verbatim>\<open>M /= d\<close> and \<^verbatim>\<open>M += N\<close> on whole arrays, and \<^verbatim>\<open>exp(M)\<close>.\<close>

definition div_all :: "array2 \<Rightarrow> real \<Rightarrow> array2" where
  "div_all M d = map (map (\<lambda>x. x / d)) M"

definition add_all :: "array2 \<Rightarrow> array2 \<Rightarrow> array2" where
  "add_all M N = map (\<lambda>(r, s). map (\<lambda>(x, y). x + y) (zip r s)) (zip M N)"

definition exp_all :: "array2 \<Rightarrow> array2" where
  "exp_all M = map (map exp) M"

text \<open>\<^verbatim>\<open>fill_diagonal(M, v)\<close>.\<close>

definition fill_diagonal :: "'a list list \<Rightarrow> 'a \<Rightarrow> 'a list list" where
  "fill_diagonal M v = map (\<lambda>i. (M ! i)[i := v]) [0..<length M]"

text \<open>\<^verbatim>\<open>M[ix_(rs, cs)]\<close>: the rows \<open>rs\<close> and columns \<open>cs\<close> of \<open>M\<close>, in the given order.\<close>

definition ix_select :: "'a list list \<Rightarrow> nat list \<Rightarrow> nat list \<Rightarrow> 'a list list" where
  "ix_select M rs cs = map (\<lambda>i. map (\<lambda>j. M ! i ! j) cs) rs"

text \<open>An \<open>n\<close> by \<open>n\<close> array.\<close>

definition square :: "nat \<Rightarrow> 'a list list \<Rightarrow> bool" where
  "square n M \<longleftrightarrow> length M = n \<and> (\<forall>r \<in> set M. length r = n)"

section \<open>LabelledSymmetricMatrix, SimilarityMatrix and RDM\<close>

text \<open>
  The three classes of \<^verbatim>\<open>rsa.py\<close> have the same two fields; \<open>SimilarityMatrix\<close> and
  \<open>RDM\<close> add no state.  The constructor asserts that the array is square and has one
  label per row.
\<close>

record 'a LabelledSymmetricMatrix =
  matrix :: "'a list list"
  labels :: "string list"

definition init :: "'a list list \<Rightarrow> string list \<Rightarrow> error + 'a LabelledSymmetricMatrix" where
  "init m ls =
     (if length ls = shape0 m \<and> shape0 m = shape1 m
      then Inr \<lparr>matrix = m, labels = ls\<rparr>
      else Inl AssertionError)"

text \<open>
  What every constructed object satisfies: the constructor's assertion, and that the array
  is rectangular, as every numpy array is.
\<close>

definition valid :: "'a LabelledSymmetricMatrix \<Rightarrow> bool" where
  "valid S \<longleftrightarrow>
     length (matrix S) = length (labels S) \<and>
     list_all (\<lambda>r. length r = length (labels S)) (matrix S)"

definition symmetric :: "'a list list \<Rightarrow> bool" where
  "symmetric M \<longleftrightarrow>
     list_all (\<lambda>i. list_all (\<lambda>j. M ! i ! j = M ! j ! i) [0..<length M]) [0..<length M]"

text \<open>
  Modelled from the spec: \<open>find_indices\<close> of the module \<^verbatim>\<open>aux\<close>, which is not among the
  sources.  It resolves each requested label to its index in the label list, in the order
  requested; a label that is absent resolves to nothing, which is what the callers'
  assertion \<^verbatim>\<open>len(idxs) == len(subset_words)\<close> then catches.
\<close>

fun index_of :: "'a list \<Rightarrow> 'a \<Rightarrow> nat option" where
  "index_of [] w = None"
| "index_of (x # xs) w = (if x = w then Some 0 else map_option Suc (index_of xs w))"

definition find_indices :: "'a list \<Rightarrow> 'a list \<Rightarrow> nat list" where
  "find_indices ls ws = List.map_filter (index_of ls) ws"

definition for_subset ::
  "real LabelledSymmetricMatrix \<Rightarrow> string list \<Rightarrow> error + real LabelledSymmetricMatrix" where
  "for_subset S subset_words =
     (let idxs = find_indices (labels S) subset_words in
      if length idxs \<noteq> length subset_words then Inl AssertionError
      else init (ix_select (matrix S) idxs idxs) subset_words)"

section \<open>The mean softmax probability transform\<close>

text \<open>One triplet term: \<^verbatim>\<open>E[i, j] / (E[i, j] + E[i, k] + E[j, k])\<close>.\<close>

definition softmax_term :: "array2 \<Rightarrow> nat \<Rightarrow> nat \<Rightarrow> nat \<Rightarrow> real" where
  "softmax_term E i j k = E ! i ! j / (E ! i ! j + E ! i ! k + E ! j ! k)"

text \<open>The innermost loop of \<^verbatim>\<open>rsa.py\<close>: \<open>ctmp\<close> after \<^verbatim>\<open>for k in idxs\<close>.\<close>

definition ctmp_row :: "array2 \<Rightarrow> nat \<Rightarrow> nat list \<Rightarrow> nat \<Rightarrow> nat \<Rightarrow> real list" where
  "ctmp_row E n ks i j =
     fold (\<lambda>k ctmp. if k = i \<or> k = j then ctmp else ctmp[k := softmax_term E i j k])
       ks (replicate n 0)"

text \<open>The two outer loops: \<open>cp\<close> after \<^verbatim>\<open>for i in idxs: for j in idxs\<close>.\<close>

definition fill_cp :: "array2 \<Rightarrow> nat \<Rightarrow> nat list \<Rightarrow> array2" where
  "fill_cp E n idxs =
     fold (\<lambda>i cp.
        fold (\<lambda>j cp.
           if i = j then cp
           else cp[i := (cp ! i)[j := sum_list (ctmp_row E n idxs i j)]])
          idxs cp)
       idxs (zeros2 n n)"

definition mean_softmax_probability_matrix ::
  "real LabelledSymmetricMatrix \<Rightarrow> string list option \<Rightarrow> error + real LabelledSymmetricMatrix" where
  "mean_softmax_probability_matrix from_similarity_matrix subset_labels_opt =
     (let subset_labels =
            (case subset_labels_opt of
               None \<Rightarrow> labels from_similarity_matrix
             | Some ls \<Rightarrow> ls);
          idxs = find_indices (labels from_similarity_matrix) subset_labels
      in if length idxs \<noteq> length subset_labels then Inl AssertionError
         else
           let exp_similarity_matrix = exp_all (matrix from_similarity_matrix);
               n = length (labels from_similarity_matrix);
               cp0 = fill_cp exp_similarity_matrix n idxs;
               cp1 = div_all cp0 (real (length subset_labels));
               cp2 = div_all (add_all cp1 (transpose_np cp1)) 2;
               cp3 = fill_diagonal cp2 1
           in init (ix_select cp3 idxs idxs) subset_labels)"

section \<open>The specification's wording of the transform, and examples\<close>

text \<open>A source matrix of three conditions whose similarities are all zero.\<close>

definition zero3 :: "real LabelledSymmetricMatrix" where
  "zero3 = \<lparr>matrix = [[0, 0, 0], [0, 0, 0], [0, 0, 0]], labels = [''a'', ''b'', ''c'']\<rparr>"

text \<open>
  \<^verbatim>\<open>SimilarityMatrix.for_subset\<close>: the inherited selection, rebuilt as a
  \<open>SimilarityMatrix\<close>.
\<close>

definition SimilarityMatrix_for_subset ::
  "real LabelledSymmetricMatrix \<Rightarrow> string list \<Rightarrow> error + real LabelledSymmetricMatrix" where
  "SimilarityMatrix_for_subset S subset_words =
     (case for_subset S subset_words of
        Inl e \<Rightarrow> Inl e
      | Inr s \<Rightarrow> init (matrix s) (labels s))"

text \<open>
  The other side of the comparison of the specification: the transform of the whole label
  set, narrowed afterwards with \<open>for_subset\<close>.
\<close>

definition full_then_for_subset ::
  "real LabelledSymmetricMatrix \<Rightarrow> string list \<Rightarrow> error + real LabelledSymmetricMatrix" where
  "full_then_for_subset S subset_labels =
     (case mean_softmax_probability_matrix S None of
        Inl e \<Rightarrow> Inl e
      | Inr F \<Rightarrow> SimilarityMatrix_for_subset F subset_labels)"

text \<open>
  The entry for the pair \<open>(i, j)\<close> as the specification words it: the triplet terms are
  summed over every condition \<open>k\<close> of the full condition set other than \<open>i\<close> and \<open>j\<close>,
  and the sum is divided by the size of the subset.
\<close>

definition full_set_mean_softmax_entry :: "real LabelledSymmetricMatrix \<Rightarrow> string list \<Rightarrow> nat \<Rightarrow> nat \<Rightarrow> real" where
  "full_set_mean_softmax_entry S subset_labels i j =
     (\<Sum>k \<leftarrow> filter (\<lambda>k. k \<noteq> i \<and> k \<noteq> j) [0..<length (labels S)].
        softmax_term (exp_all (matrix S)) i j k) / real (length subset_labels)"

section \<open>Correlation of two matrices\<close>

text \<open>
  A value of numpy's float type as far as the correlation code tells values apart: a real
  number, or not-a-number.
\<close>

datatype np_float = Num real | NaN

text \<open>
  \<^verbatim>\<open>scipy.spatial.distance.squareform\<close> applied to a square array, with its default
  \<^verbatim>\<open>checks=True\<close>: the array must be symmetric with a zero diagonal, and the result is the
  vector of the entries above the diagonal, row by row.
\<close>

definition squareform :: "array2 \<Rightarrow> error + real list" where
  "squareform X =
     (if shape0 X \<noteq> shape1 X then Inl ValueError
      else if \<not> symmetric X then Inl ValueError
      else if \<not> list_all (\<lambda>i. X ! i ! i = 0) [0..<length X] then Inl ValueError
      else Inr (concat (map (\<lambda>i. map (\<lambda>j. X ! i ! j) [Suc i..<length X]) [0..<length X])))"

text \<open>
  \<^verbatim>\<open>numpy.corrcoef(x, y)[0, 1]\<close>: the covariance of the two vectors divided by both
  standard deviations, all three normalised by \<open>N - 1\<close>.  A vector of fewer than two
  entries, or of variance zero, makes the quotient \<open>0 / 0\<close>, which numpy returns as
  not-a-number (with a warning, not an exception).  Vectors of different lengths cannot
  be stacked.  The formula is read here in exact arithmetic; numpy evaluates it in
  binary64, and the two agree where the mean and the deviations are computed without
  rounding, as in the examples below.
\<close>

definition mean :: "real list \<Rightarrow> real" where
  "mean xs = sum_list xs / real (length xs)"

definition cov :: "real list \<Rightarrow> real list \<Rightarrow> real" where
  "cov xs ys =
     (\<Sum>(x, y) \<leftarrow> zip xs ys. (x - mean xs) * (y - mean ys)) / (real (length xs) - 1)"

definition corrcoef :: "real list \<Rightarrow> real list \<Rightarrow> error + np_float" where
  "corrcoef xs ys =
     (if length xs \<noteq> length ys then Inl ValueError
      else if length xs < 2 \<or> cov xs xs = 0 \<or> cov ys ys = 0 then Inr NaN
      else Inr (Num (cov xs ys / sqrt (cov xs xs) / sqrt (cov ys ys))))"

definition correlate_with ::
  "real LabelledSymmetricMatrix \<Rightarrow> real LabelledSymmetricMatrix \<Rightarrow> error + np_float" where
  "correlate_with self other =
     (if length (labels self) \<noteq> length (labels other) then Inl AssertionError
      else case squareform (matrix self) of
             Inl e \<Rightarrow> Inl e
           | Inr c1 \<Rightarrow>
               (case squareform (matrix other) of
                  Inl e \<Rightarrow> Inl e
                | Inr c2 \<Rightarrow> corrcoef c1 c2))"

section \<open>The randomisation test\<close>

text \<open>
  \<^verbatim>\<open>M[ix_(perm, perm)]\<close> with the bounds check of numpy: an index outside the array raises
  \<open>IndexError\<close>.
\<close>

definition ix_perm :: "array2 \<Rightarrow> nat list \<Rightarrow> error + array2" where
  "ix_perm M perm =
     (if list_all (\<lambda>i. i < shape0 M \<and> i < shape1 M) perm
      then Inr (ix_select M perm perm)
      else Inl IndexError)"

text \<open>
  \<^verbatim>\<open>scipy.stats.percentileofscore(a, score)\<close> with its default \<^verbatim>\<open>kind='rank'\<close>: with
  \<open>left\<close> the number of entries below the score and \<open>right\<close> the number of entries not
  above it, the percentage \<open>(left + right + (1 if right > left else 0)) * 50 / n\<close>.
  Comparisons with not-a-number are false; for an empty \<open>a\<close> the result is 100, as in the
  scipy releases of the time of the code.
\<close>

fun np_less :: "np_float \<Rightarrow> real \<Rightarrow> bool" where
  "np_less (Num x) s \<longleftrightarrow> x < s"
| "np_less NaN s \<longleftrightarrow> False"

fun np_less_eq :: "np_float \<Rightarrow> real \<Rightarrow> bool" where
  "np_less_eq (Num x) s \<longleftrightarrow> x \<le> s"
| "np_less_eq NaN s \<longleftrightarrow> False"

definition percentileofscore :: "np_float list \<Rightarrow> np_float \<Rightarrow> np_float" where
  "percentileofscore a score =
     (case score of
        NaN \<Rightarrow> NaN
      | Num s \<Rightarrow>
          if length a = 0 then Num 100
          else
            let left = length (filter (\<lambda>x. np_less x s) a);
                right = length (filter (\<lambda>x. np_less_eq x s) a)
            in Num (real (right + left + (if right > left then 1 else 0)) * 50
                      / real (length a)))"

text \<open>
  The loop of \<open>randomisation_p\<close>.  \<^verbatim>\<open>numpy.random.permutation\<close> draws from numpy's global
  generator; the generator is a state \<open>g\<close> threaded through the loop, and \<open>permutation n g\<close>
  is the permutation of \<open>range(n)\<close> it returns together with its next state.  The argument
  \<open>sz\<close> is what the code passes to \<open>permutation\<close>.
\<close>

fun r_perms_loop ::
  "(nat \<Rightarrow> 'g \<Rightarrow> nat list \<times> 'g) \<Rightarrow> nat \<Rightarrow> real list \<Rightarrow> array2 \<Rightarrow> nat \<Rightarrow> 'g
     \<Rightarrow> error + (np_float list \<times> 'g)" where
  "r_perms_loop permutation sz c1 rdm_2 0 g = Inr ([], g)"
| "r_perms_loop permutation sz c1 rdm_2 (Suc k) g =
     (case permutation sz g of
        (perm, g') \<Rightarrow>
          (case ix_perm rdm_2 perm of
             Inl e \<Rightarrow> Inl e
           | Inr M \<Rightarrow>
               (case squareform M of
                  Inl e \<Rightarrow> Inl e
                | Inr c2 \<Rightarrow>
                    (case corrcoef c1 c2 of
                       Inl e \<Rightarrow> Inl e
                     | Inr r \<Rightarrow>
                         (case r_perms_loop permutation sz c1 rdm_2 k g' of
                            Inl e \<Rightarrow> Inl e
                          | Inr (rs, g'') \<Rightarrow> Inr (r # rs, g''))))))"

text \<open>\<^verbatim>\<open>1 - (percentileofscore(r_perms, observed_r) / 100)\<close>.\<close>

definition p_value_of :: "np_float list \<Rightarrow> np_float \<Rightarrow> np_float" where
  "p_value_of r_perms observed_r =
     (case percentileofscore r_perms observed_r of
        NaN \<Rightarrow> NaN
      | Num pct \<Rightarrow> Num (1 - pct / 100))"

text \<open>\<open>randomisation_p\<close> of \<^verbatim>\<open>rsa.py\<close>: the permutations have the size of \<open>rdm_1\<close>.\<close>

definition randomisation_p ::
  "(nat \<Rightarrow> 'g \<Rightarrow> nat list \<times> 'g) \<Rightarrow> array2 \<Rightarrow> array2 \<Rightarrow> np_float \<Rightarrow> nat \<Rightarrow> 'g
     \<Rightarrow> error + (np_float \<times> 'g)" where
  "randomisation_p permutation rdm_1 rdm_2 observed_r n_perms g =
     (case squareform rdm_1 of
        Inl e \<Rightarrow> Inl e
      | Inr c1 \<Rightarrow>
          (case r_perms_loop permutation (shape0 rdm_1) c1 rdm_2 n_perms g of
             Inl e \<Rightarrow> Inl e
           | Inr (r_perms, g') \<Rightarrow> Inr (p_value_of r_perms observed_r, g')))"

text \<open>
  \<open>randomisation_p\<close> of \<^verbatim>\<open>hebart_comparison.py\<close>: the same, with \<^verbatim>\<open>permutation(48)\<close>.
\<close>

definition hebart_randomisation_p ::
  "(nat \<Rightarrow> 'g \<Rightarrow> nat list \<times> 'g) \<Rightarrow> array2 \<Rightarrow> array2 \<Rightarrow> np_float \<Rightarrow> nat \<Rightarrow> 'g
     \<Rightarrow> error + (np_float \<times> 'g)" where
  "hebart_randomisation_p permutation rdm_1 rdm_2 observed_r n_perms g =
     (case squareform rdm_1 of
        Inl e \<Rightarrow> Inl e
      | Inr c1 \<Rightarrow>
          (case r_perms_loop permutation 48 c1 rdm_2 n_perms g of
             Inl e \<Rightarrow> Inl e
           | Inr (r_perms, g') \<Rightarrow> Inr (p_value_of r_perms observed_r, g')))"

text \<open>\<open>RDM.correlate_with_nhst\<close>.\<close>

definition correlate_with_nhst ::
  "(nat \<Rightarrow> 'g \<Rightarrow> nat list \<times> 'g) \<Rightarrow> real LabelledSymmetricMatrix \<Rightarrow> real LabelledSymmetricMatrix
     \<Rightarrow> nat \<Rightarrow> 'g \<Rightarrow> error + ((np_float \<times> np_float) \<times> 'g)" where
  "correlate_with_nhst permutation self other n_perms g =
     (case correlate_with self other of
        Inl e \<Rightarrow> Inl e
      | Inr r_value \<Rightarrow>
          (case randomisation_p permutation (matrix self) (matrix other) r_value n_perms g of
             Inl e \<Rightarrow> Inl e
           | Inr (p_value, g') \<Rightarrow> Inr ((r_value, p_value), g')))"

text \<open>
  A generator for the examples: its state counts the calls, and the \<open>g\<close>-th call returns
  \<open>range(n)\<close> rotated by \<open>g\<close> places.
\<close>

definition rotating :: "nat \<Rightarrow> nat \<Rightarrow> nat list \<times> nat" where
  "rotating n g = (rotate g [0..<n], Suc g)"

definition rdm3 :: array2 where
  "rdm3 = [[0, 1, 2], [1, 0, 3], [2, 3, 0]]"

text \<open>
  The permutations that \<open>k\<close> successive calls of \<open>permutation sz\<close> return, and the
  correlation of a fixed vector with the second matrix permuted in rows and columns.
\<close>

fun draws :: "(nat \<Rightarrow> 'g \<Rightarrow> nat list \<times> 'g) \<Rightarrow> nat \<Rightarrow> nat \<Rightarrow> 'g \<Rightarrow> nat list list" where
  "draws permutation sz 0 g = []"
| "draws permutation sz (Suc k) g =
     (case permutation sz g of (perm, g') \<Rightarrow> perm # draws permutation sz k g')"

definition permuted_r :: "real list \<Rightarrow> array2 \<Rightarrow> nat list \<Rightarrow> error + np_float" where
  "permuted_r c1 rdm_2 perm =
     (case squareform (ix_select rdm_2 perm perm) of
        Inl e \<Rightarrow> Inl e
      | Inr c2 \<Rightarrow> corrcoef c1 c2)"

text \<open>What numpy promises of \<open>permutation n\<close>: a permutation of \<open>range(n)\<close>.\<close>

definition permutes_range :: "(nat \<Rightarrow> 'g \<Rightarrow> nat list \<times> 'g) \<Rightarrow> bool" where
  "permutes_range permutation \<longleftrightarrow>
     (\<forall>n g. distinct (fst (permutation n g)) \<and> set (fst (permutation n g)) = {..<n})"

text \<open>
  The process of \<^verbatim>\<open>hebart_comparison.py\<close> has two random generators: the one of Python's
  module \<open>random\<close>, which \<^verbatim>\<open>seed(2)\<close> sets, and numpy's global generator, from which
  \<^verbatim>\<open>numpy.random.permutation\<close> draws.  The state of the first is known by the seed it was
  last given, if any.
\<close>

record 'g process =
  python_random :: "int option"
  numpy_random :: 'g

definition seed :: "int \<Rightarrow> 'g process \<Rightarrow> 'g process" where
  "seed a w = w\<lparr>python_random := Some a\<rparr>"

text \<open>
  A run: the process executes \<^verbatim>\<open>seed(2)\<close>, as \<^verbatim>\<open>hebart_comparison.py\<close> does when it is
  loaded, and calls \<open>randomisation_p\<close> once.
\<close>

definition seeded_run ::
  "(nat \<Rightarrow> 'g \<Rightarrow> nat list \<times> 'g) \<Rightarrow> array2 \<Rightarrow> array2 \<Rightarrow> np_float \<Rightarrow> nat \<Rightarrow> 'g process
     \<Rightarrow> error + np_float" where
  "seeded_run permutation rdm_1 rdm_2 observed_r n_perms w =
     (let w' = seed 2 w in
      case randomisation_p permutation rdm_1 rdm_2 observed_r n_perms (numpy_random w') of
        Inl e \<Rightarrow> Inl e
      | Inr (p_value, g') \<Rightarrow> Inr p_value)"

text \<open>
  The fraction of a null distribution that is greater than or equal to a score, as the
  specification words the p-value.
\<close>

fun np_greater_eq :: "np_float \<Rightarrow> real \<Rightarrow> bool" where
  "np_greater_eq (Num x) s \<longleftrightarrow> s \<le> x"
| "np_greater_eq NaN s \<longleftrightarrow> False"

definition fraction_greater_eq :: "np_float list \<Rightarrow> real \<Rightarrow> real" where
  "fraction_greater_eq r_perms s =
     real (length (filter (\<lambda>r. np_greater_eq r s) r_perms)) / real (length r_perms)"

text \<open>Three conditions at the same distance from one another.\<close>

definition const3 :: "real LabelledSymmetricMatrix" where
  "const3 = \<lparr>matrix = [[0, 1, 1], [1, 0, 1], [1, 1, 0]], labels = [''a'', ''b'', ''c'']\<rparr>"

section \<open>The sensorimotor predictor builder\<close>

text \<open>
  \<open>add_sensorimotor_predictor\<close> of \<^verbatim>\<open>similarity_comparison.py\<close> works on a pandas
  data frame.  A frame is modelled by its number of rows, its columns of words and its
  columns of numbers, each column a name with one cell per row; a cell of a column of
  numbers may be missing (\<^verbatim>\<open>None\<close>).
\<close>

record dataset =
  n_rows :: nat
  word_columns :: "(string \<times> string list) list"
  value_columns :: "(string \<times> real option list) list"

definition columns :: "dataset \<Rightarrow> string list" where
  "columns d = map fst (word_columns d) @ map fst (value_columns d)"

text \<open>
  The sensorimotor norms are a collaborator outside the sources: a table from words to
  vectors, whose \<open>vector_for_word\<close> raises \<open>WordNotInNormsError\<close> for a word that it does
  not list.  The function \<open>distance\<close> for a given distance type is a parameter.
\<close>

datatype norms_error = WordNotInNormsError

definition vector_for_word :: "(string \<rightharpoonup> real list) \<Rightarrow> string \<Rightarrow> norms_error + real list" where
  "vector_for_word sn w = (case sn w of None \<Rightarrow> Inl WordNotInNormsError | Some v \<Rightarrow> Inr v)"

text \<open>The function applied to each row: the \<^verbatim>\<open>try\<close> block and its handler.\<close>

definition calc_sensorimotor_distance ::
  "(string \<rightharpoonup> real list) \<Rightarrow> (real list \<Rightarrow> real list \<Rightarrow> real) \<Rightarrow> string \<Rightarrow> string \<Rightarrow> real option" where
  "calc_sensorimotor_distance sn distance w1 w2 =
     (case vector_for_word sn w1 of
        Inl WordNotInNormsError \<Rightarrow> None
      | Inr v1 \<Rightarrow>
          (case vector_for_word sn w2 of
             Inl WordNotInNormsError \<Rightarrow> None
           | Inr v2 \<Rightarrow> Some (distance v1 v2)))"

definition predictor_name :: "string \<Rightarrow> string" where
  "predictor_name distance_type_name = ''Sensorimotor distance ('' @ distance_type_name @ '')''"

text \<open>
  The builder.  A key column that the frame does not have makes \<^verbatim>\<open>row[key_col]\<close> raise
  \<open>KeyError\<close>, which the handler does not catch.
\<close>

definition add_sensorimotor_predictor ::
  "(string \<rightharpoonup> real list) \<Rightarrow> (real list \<Rightarrow> real list \<Rightarrow> real) \<Rightarrow> dataset \<Rightarrow> string \<times> string
     \<Rightarrow> string \<Rightarrow> error + dataset" where
  "add_sensorimotor_predictor sn distance d word_key_cols distance_type_name =
     (if predictor_name distance_type_name \<in> set (columns d) then Inr d
      else
        case word_key_cols of
          (key_col_1, key_col_2) \<Rightarrow>
            (case map_of (word_columns d) key_col_1 of
               None \<Rightarrow> Inl KeyError
             | Some ws1 \<Rightarrow>
                 (case map_of (word_columns d) key_col_2 of
                    None \<Rightarrow> Inl KeyError
                  | Some ws2 \<Rightarrow>
                      Inr (d\<lparr>value_columns := value_columns d @
                             [(predictor_name distance_type_name,
                               map (\<lambda>i. calc_sensorimotor_distance sn distance (ws1 ! i) (ws2 ! i))
                                 [0..<n_rows d])]\<rparr>))))"

text \<open>A frame of three word pairs and norms that list two of the four words.\<close>

definition pairs3 :: dataset where
  "pairs3 = \<lparr>n_rows = 3,
             word_columns = [(''CUE'', [''cat'', ''dog'', ''cat'']),
                             (''TARGET'', [''dog'', ''zyx'', ''cat''])],
             value_columns = []\<rparr>"

definition norms2 :: "string \<rightharpoonup> real list" where
  "norms2 = [''cat'' \<mapsto> [1, 0], ''dog'' \<mapsto> [0, 1]]"

definition manhattan :: "real list \<Rightarrow> real list \<Rightarrow> real" where
  "manhattan v1 v2 = (\<Sum>(x, y) \<leftarrow> zip v1 v2. \<bar>x - y\<bar>)"

section \<open>The transform of hebart\_comparison.py\<close>

text \<open>
  \<^verbatim>\<open>numpy.searchsorted(a, v)\<close> for an array \<open>a\<close> sorted in ascending order, as its
  documentation requires: for each entry of \<open>v\<close> the index at which it would be inserted
  to keep \<open>a\<close> sorted, which is the number of entries of \<open>a\<close> below it.  Words are compared
  as Python compares strings, character by character.  On an array that is not sorted
  numpy's bisection may stop elsewhere; every statement below is about sorted arrays.
\<close>

definition searchsorted :: "string list \<Rightarrow> string list \<Rightarrow> nat list" where
  "searchsorted a v = map (\<lambda>w. length (takeWhile (\<lambda>x. x < w) a)) v"



section \<open>Similarity and dissimilarity in floating point\<close>

text \<open>
  The conversions between similarity and dissimilarity subtract every entry from 1, and
  the claim about them is about exact equality of the computed entries, so here the
  entries are floats and subtraction rounds.  A finite binary64 number is an integer
  mantissa of at most 53 bits times a power of two; the value of the record is
  \<open>mant * 2 ^ expo\<close>.  Infinities, not-a-number and the bounds of the exponent are left
  out: a difference of two floats of magnitude below the overflow threshold is rounded
  as defined here.
\<close>

record float64 =
  mant :: int
  expo :: int

definition fval :: "float64 \<Rightarrow> real" where
  "fval f =
     (if 0 \<le> expo f then of_int (mant f) * 2 ^ nat (expo f)
      else of_int (mant f) / 2 ^ nat (- expo f))"

text \<open>The number of binary digits of a natural number.\<close>

fun bits :: "nat \<Rightarrow> nat" where
  "bits n = (if n = 0 then 0 else Suc (bits (n div 2)))"

text \<open>
  Rounding of the exact result \<open>m * 2 ^ e\<close> to 53 bits: to the nearest, and to the even
  mantissa when two are equally near.
\<close>

definition round_mant :: "int \<Rightarrow> int \<Rightarrow> float64" where
  "round_mant m e =
     (let k = bits (nat \<bar>m\<bar>) - 53
      in if k = 0 then \<lparr>mant = m, expo = e\<rparr>
         else
           let q = m div 2 ^ k;
               r = m mod 2 ^ k;
               half = 2 ^ (k - 1)
           in \<lparr>mant = (if r < half then q
                       else if half < r then q + 1
                       else if even q then q else q + 1),
                expo = e + int k\<rparr>)"

text \<open>\<open>a - b\<close> on floats: the exact difference, rounded.\<close>

definition fsub :: "float64 \<Rightarrow> float64 \<Rightarrow> float64" where
  "fsub a b =
     (let e = min (expo a) (expo b)
      in round_mant (mant a * 2 ^ nat (expo a - e) - mant b * 2 ^ nat (expo b - e)) e)"

definition one :: float64 where
  "one = \<lparr>mant = 1, expo = 0\<rparr>"

text \<open>The float nearest to 0.1, and the float 0.5.\<close>

definition tenth :: float64 where
  "tenth = \<lparr>mant = 3602879701896397, expo = - 55\<rparr>"

definition half :: float64 where
  "half = \<lparr>mant = 1, expo = - 1\<rparr>"

text \<open>
  \<open>RDM.from_similarity_matrix\<close> and \<open>SimilarityMatrix.from_rdm\<close>: both are
  \<^verbatim>\<open>1 - matrix\<close> with the labels kept; \<open>round_trip\<close> is the second after the first.
\<close>

definition from_similarity_matrix ::
  "float64 LabelledSymmetricMatrix \<Rightarrow> error + float64 LabelledSymmetricMatrix" where
  "from_similarity_matrix similarity_matrix =
     init (map (map (fsub one)) (matrix similarity_matrix)) (labels similarity_matrix)"

definition from_rdm ::
  "float64 LabelledSymmetricMatrix \<Rightarrow> error + float64 LabelledSymmetricMatrix" where
  "from_rdm rdm = init (map (map (fsub one)) (matrix rdm)) (labels rdm)"

definition round_trip ::
  "float64 LabelledSymmetricMatrix \<Rightarrow> error + float64 LabelledSymmetricMatrix" where
  "round_trip S =
     (case from_similarity_matrix S of
        Inl e \<Rightarrow> Inl e
      | Inr D \<Rightarrow> from_rdm D)"

definition sim_tenth :: "float64 LabelledSymmetricMatrix" where
  "sim_tenth = \<lparr>matrix = [[one, tenth], [tenth, one]], labels = [''a'', ''b'']\<rparr>"

definition sim_mixed :: "float64 LabelledSymmetricMatrix" where
  "sim_mixed = \<lparr>matrix = [[one, half, tenth], [half, one, half], [tenth, half, one]],
                labels = [''a'', ''b'', ''c'']\<rparr>"

text \<open>
  What \<open>squareform\<close> accepts and what it returns: an \<open>n\<close> by \<open>n\<close> array that is symmetric
  with a zero diagonal (scipy's \<open>is_valid_dm\<close>), and the entries above the diagonal.
\<close>

definition zero_diagonal :: "array2 \<Rightarrow> bool" where
  "zero_diagonal M \<longleftrightarrow> list_all (\<lambda>i. M ! i ! i = 0) [0..<length M]"

definition is_valid_dm :: "nat \<Rightarrow> array2 \<Rightarrow> bool" where
  "is_valid_dm n M \<longleftrightarrow> square n M \<and> symmetric M \<and> zero_diagonal M"

definition upper_triangle :: "array2 \<Rightarrow> real list" where
  "upper_triangle M =
     concat (map (\<lambda>i. map (\<lambda>j. M ! i ! j) [Suc i..<length M]) [0..<length M])"

text \<open>
  \<open>correlate_with\<close> with numpy's \<open>corrcoef\<close> left open: \<open>cc\<close> is any function from two
  vectors to a float or an exception, the one numpy computes in binary64 among them.
\<close>

definition correlate_with_by ::
  "(real list \<Rightarrow> real list \<Rightarrow> error + np_float)
     \<Rightarrow> real LabelledSymmetricMatrix \<Rightarrow> real LabelledSymmetricMatrix \<Rightarrow> error + np_float" where
  "correlate_with_by cc self other =
     (if length (labels self) \<noteq> length (labels other) then Inl AssertionError
      else case squareform (matrix self) of
             Inl e \<Rightarrow> Inl e
           | Inr c1 \<Rightarrow>
               (case squareform (matrix other) of
                  Inl e \<Rightarrow> Inl e
                | Inr c2 \<Rightarrow> cc c1 c2))"

text \<open>The number that a float stands for; not-a-number stands for none.\<close>

fun num_of :: "np_float \<Rightarrow> real" where
  "num_of (Num x) = x"
| "num_of NaN = 0"

section \<open>Auxiliary notions for the proofs\<close>

text \<open>
  The two outer loops of the transform with the value stored at \<open>(i, j)\<close> left open, and
  the steps after the loops (average, symmetrise, unit diagonal) as one function.
\<close>

definition inner_loop :: "(nat \<Rightarrow> real) \<Rightarrow> nat \<Rightarrow> nat list \<Rightarrow> array2 \<Rightarrow> array2" where
  "inner_loop g i js cp =
     fold (\<lambda>j cp. if i = j then cp else cp[i := (cp ! i)[j := g j]]) js cp"

definition outer_loop ::
  "(nat \<Rightarrow> nat \<Rightarrow> real) \<Rightarrow> nat list \<Rightarrow> nat list \<Rightarrow> array2 \<Rightarrow> array2" where
  "outer_loop g is js cp = fold (\<lambda>i cp. inner_loop (g i) i js cp) is cp"

definition finish_cp :: "array2 \<Rightarrow> real \<Rightarrow> array2" where
  "finish_cp cp0 m =
     (let cp1 = div_all cp0 m;
          cp2 = div_all (add_all cp1 (transpose_np cp1)) 2
      in fill_diagonal cp2 1)"


section \<open>Shapes and indices\<close>

lemma square_nth: "square n M \<Longrightarrow> i < n \<Longrightarrow> length (M ! i) = n"
  by (simp add: square_def)

lemma square_zeros2: "square n (zeros2 n n)"
  by (simp add: square_def zeros2_def)

lemma square_update:
  assumes "square n M" and "length r = n"
  shows "square n (M[i := r])"
  using assms by (auto simp: square_def dest: set_update_subset_insert [THEN subsetD])

lemma index_of_less: "index_of ls w = Some i \<Longrightarrow> i < length ls"
  by (induction ls arbitrary: i) (auto split: if_splits)

lemma index_of_nth: "index_of ls w = Some i \<Longrightarrow> ls ! i = w"
  by (induction ls arbitrary: i) (auto split: if_splits)

lemma index_of_mem: "w \<in> set ls \<Longrightarrow> \<exists>i. index_of ls w = Some i"
  by (induction ls) auto

lemma index_of_None: "index_of ls w = None \<longleftrightarrow> w \<notin> set ls"
  by (induction ls) auto

lemma find_indices_less: "i \<in> set (find_indices ls ws) \<Longrightarrow> i < length ls"
  by (auto simp: find_indices_def List.map_filter_def dest: index_of_less)

lemma find_indices_all:
  "set ws \<subseteq> set ls \<Longrightarrow> find_indices ls ws = map (\<lambda>w. the (index_of ls w)) ws"
proof (induction ws)
  case Nil
  then show ?case by (simp add: find_indices_def)
next
  case (Cons w ws)
  then obtain i where "index_of ls w = Some i"
    using index_of_mem [of w ls] by auto
  with Cons show ?case
    by (simp add: find_indices_def)
qed

lemma find_indices_length: "set ws \<subseteq> set ls \<Longrightarrow> length (find_indices ls ws) = length ws"
  by (simp add: find_indices_all)

section \<open>The loops, entry by entry\<close>

lemma fold_update_length:
  "length (fold (\<lambda>k c. if P k then c else c[k := g k]) ks c0) = length c0"
  by (induction ks arbitrary: c0) auto

lemma fold_update_nth:
  "k < length c0 \<Longrightarrow>
   fold (\<lambda>k c. if P k then c else c[k := g k]) ks c0 ! k =
     (if k \<in> set ks \<and> \<not> P k then g k else c0 ! k)"
proof (induction ks rule: rev_induct)
  case Nil
  then show ?case by simp
next
  case (snoc x xs)
  let ?c = "fold (\<lambda>k c. if P k then c else c[k := g k]) xs c0"
  have len: "k < length ?c" using snoc.prems by (simp add: fold_update_length)
  have ih: "?c ! k = (if k \<in> set xs \<and> \<not> P k then g k else c0 ! k)"
    using snoc by simp
  show ?case
  proof (cases "P x")
    case True
    then show ?thesis using ih by auto
  next
    case False
    then show ?thesis using ih len by (cases "k = x") (simp_all add: nth_list_update)
  qed
qed

lemma ctmp_row_length: "length (ctmp_row E n ks i j) = n"
  by (simp add: ctmp_row_def fold_update_length)

lemma ctmp_row_nth:
  "k < n \<Longrightarrow> ctmp_row E n ks i j ! k =
     (if k \<in> set ks \<and> k \<noteq> i \<and> k \<noteq> j then softmax_term E i j k else 0)"
  unfolding ctmp_row_def
  by (subst fold_update_nth) auto


lemma inner_loop_snoc_same: "inner_loop g i (js @ [i]) cp = inner_loop g i js cp"
  by (simp add: inner_loop_def)

lemma inner_loop_snoc_other:
  "i \<noteq> j \<Longrightarrow> inner_loop g i (js @ [j]) cp =
     (inner_loop g i js cp)[i := (inner_loop g i js cp ! i)[j := g j]]"
  by (simp add: inner_loop_def)

lemma inner_loop_square:
  "square n cp \<Longrightarrow> i < n \<Longrightarrow> square n (inner_loop g i js cp)"
proof (induction js rule: rev_induct)
  case Nil
  then show ?case by (simp add: inner_loop_def)
next
  case (snoc j js)
  then have sq: "square n (inner_loop g i js cp)" by simp
  show ?case
  proof (cases "i = j")
    case True
    then show ?thesis using sq by (simp add: inner_loop_snoc_same)
  next
    case False
    have "length ((inner_loop g i js cp ! i)[j := g j]) = n"
      using sq snoc.prems by (simp add: square_nth)
    then show ?thesis
      using sq False by (simp add: inner_loop_snoc_other square_update)
  qed
qed

lemma inner_loop_nth:
  "square n cp \<Longrightarrow> i < n \<Longrightarrow> a < n \<Longrightarrow> b < n \<Longrightarrow>
   inner_loop g i js cp ! a ! b =
     (if a = i \<and> b \<in> set js \<and> b \<noteq> i then g b else cp ! a ! b)"
proof (induction js rule: rev_induct)
  case Nil
  then show ?case by (simp add: inner_loop_def)
next
  case (snoc j js)
  let ?c = "inner_loop g i js cp"
  have sq: "square n ?c"
    using snoc.prems by (simp add: inner_loop_square)
  have ih: "?c ! a ! b = (if a = i \<and> b \<in> set js \<and> b \<noteq> i then g b else cp ! a ! b)"
    using snoc by simp
  have len: "length ?c = n" "length (?c ! i) = n"
    using sq snoc.prems by (simp_all add: square_def)
  show ?case
  proof (cases "i = j")
    case True
    then show ?thesis using ih by (auto simp: inner_loop_snoc_same)
  next
    case False
    note neq = this
    have step: "inner_loop g i (js @ [j]) cp = ?c[i := (?c ! i)[j := g j]]"
      using neq by (rule inner_loop_snoc_other)
    show ?thesis
    proof (cases "a = i")
      case True
      then show ?thesis
        using neq ih len snoc.prems
        by (cases "b = j") (simp_all add: step nth_list_update)
    next
      case False
      then show ?thesis
        using ih len snoc.prems
        by (simp add: step nth_list_update)
    qed
  qed
qed

lemma outer_loop_snoc:
  "outer_loop g (is @ [i]) js cp = inner_loop (g i) i js (outer_loop g is js cp)"
  by (simp add: outer_loop_def)

lemma outer_loop_square:
  "square n cp \<Longrightarrow> set is \<subseteq> {..<n} \<Longrightarrow> square n (outer_loop g is js cp)"
proof (induction "is" rule: rev_induct)
  case Nil
  then show ?case by (simp add: outer_loop_def)
next
  case (snoc i "is")
  from snoc.prems have "i < n" and "set is \<subseteq> {..<n}" by auto
  with snoc.IH snoc.prems(1) have "square n (outer_loop g is js cp)" by blast
  then show ?case
    unfolding outer_loop_snoc using \<open>i < n\<close> by (rule inner_loop_square)
qed

lemma outer_loop_nth:
  "square n cp \<Longrightarrow> set is \<subseteq> {..<n} \<Longrightarrow> a < n \<Longrightarrow> b < n \<Longrightarrow>
   outer_loop g is js cp ! a ! b =
     (if a \<in> set is \<and> b \<in> set js \<and> b \<noteq> a then g a b else cp ! a ! b)"
proof (induction "is" rule: rev_induct)
  case Nil
  then show ?case by (simp add: outer_loop_def)
next
  case (snoc i "is")
  let ?c = "outer_loop g is js cp"
  from snoc.prems have i: "i < n" and sub: "set is \<subseteq> {..<n}" by auto
  have sq: "square n ?c"
    using snoc.prems(1) sub by (rule outer_loop_square)
  have ih: "?c ! a ! b = (if a \<in> set is \<and> b \<in> set js \<and> b \<noteq> a then g a b else cp ! a ! b)"
    using snoc.IH snoc.prems(1) sub snoc.prems(3) snoc.prems(4) by blast
  have step: "outer_loop g (is @ [i]) js cp ! a ! b =
          (if a = i \<and> b \<in> set js \<and> b \<noteq> i then g i b else ?c ! a ! b)"
    unfolding outer_loop_snoc
    using sq i snoc.prems(3) snoc.prems(4) by (rule inner_loop_nth)
  show ?case
  proof (cases "a = i")
    case True
    then show ?thesis unfolding step ih by simp
  next
    case False
    then show ?thesis unfolding step ih by simp
  qed
qed

lemma fill_cp_eq:
  "fill_cp E n idxs =
     outer_loop (\<lambda>i j. sum_list (ctmp_row E n idxs i j)) idxs idxs (zeros2 n n)"
  by (simp add: fill_cp_def inner_loop_def outer_loop_def)

lemma fill_cp_square: "set idxs \<subseteq> {..<n} \<Longrightarrow> square n (fill_cp E n idxs)"
  by (simp add: fill_cp_eq outer_loop_square square_zeros2)

lemma zeros2_nth: "a < n \<Longrightarrow> b < n \<Longrightarrow> zeros2 n n ! a ! b = 0"
  by (simp add: zeros2_def)

lemma fill_cp_nth:
  "set idxs \<subseteq> {..<n} \<Longrightarrow> a < n \<Longrightarrow> b < n \<Longrightarrow>
   fill_cp E n idxs ! a ! b =
     (if a \<in> set idxs \<and> b \<in> set idxs \<and> b \<noteq> a
      then sum_list (ctmp_row E n idxs a b) else 0)"
  by (simp add: fill_cp_eq outer_loop_nth [where n = n] square_zeros2 zeros2_nth)

section \<open>The steps after the loops\<close>

lemma div_all_square: "square n M \<Longrightarrow> square n (div_all M d)"
  by (auto simp: square_def div_all_def)

lemma div_all_nth:
  "square n M \<Longrightarrow> a < n \<Longrightarrow> b < n \<Longrightarrow> div_all M d ! a ! b = M ! a ! b / d"
  by (simp add: square_def div_all_def)

lemma transpose_np_square: "square n M \<Longrightarrow> square n (transpose_np M)"
  by (auto simp: square_def transpose_np_def)

lemma transpose_np_nth:
  "square n M \<Longrightarrow> a < n \<Longrightarrow> b < n \<Longrightarrow> transpose_np M ! a ! b = M ! b ! a"
  by (simp add: square_def transpose_np_def)

lemma add_all_square: "square n M \<Longrightarrow> square n N \<Longrightarrow> square n (add_all M N)"
proof -
  assume M: "square n M" and N: "square n N"
  have "length r = n \<and> length s = n" if "(r, s) \<in> set (zip M N)" for r s
    using that M N set_zip_leftD [OF that] set_zip_rightD [OF that]
    by (simp add: square_def)
  then show ?thesis
    using M N by (auto simp: square_def add_all_def)
qed

lemma add_all_nth:
  "square n M \<Longrightarrow> square n N \<Longrightarrow> a < n \<Longrightarrow> b < n \<Longrightarrow>
   add_all M N ! a ! b = M ! a ! b + N ! a ! b"
  by (simp add: square_def add_all_def)

lemma fill_diagonal_square: "square n M \<Longrightarrow> square n (fill_diagonal M v)"
  by (auto simp: square_def fill_diagonal_def)

lemma fill_diagonal_nth:
  "square n M \<Longrightarrow> a < n \<Longrightarrow> b < n \<Longrightarrow>
   fill_diagonal M v ! a ! b = (if a = b then v else M ! a ! b)"
  by (simp add: square_def fill_diagonal_def)

lemma ix_select_nth:
  "a < length rs \<Longrightarrow> b < length cs \<Longrightarrow> ix_select M rs cs ! a ! b = M ! (rs ! a) ! (cs ! b)"
  by (simp add: ix_select_def)

lemma ix_select_square: "square (length rs) (ix_select M rs rs)"
  by (auto simp: square_def ix_select_def)

lemma init_square:
  "square (length ls) m \<Longrightarrow> init m ls = Inr \<lparr>matrix = m, labels = ls\<rparr>"
  by (cases m) (auto simp: init_def square_def shape0_def shape1_def)

lemma finish_cp_square: "square n C \<Longrightarrow> square n (finish_cp C m)"
  by (simp add: finish_cp_def Let_def fill_diagonal_square div_all_square add_all_square
      transpose_np_square)

lemma finish_cp_nth:
  assumes "square n C" and "a < n" and "b < n"
  shows "finish_cp C m ! a ! b =
     (if a = b then 1 else (C ! a ! b / m + C ! b ! a / m) / 2)"
proof -
  let ?c1 = "div_all C m"
  have s1: "square n ?c1" using assms(1) by (rule div_all_square)
  have st: "square n (transpose_np ?c1)" using s1 by (rule transpose_np_square)
  have sa: "square n (add_all ?c1 (transpose_np ?c1))" using s1 st by (rule add_all_square)
  have s2: "square n (div_all (add_all ?c1 (transpose_np ?c1)) 2)"
    using sa by (rule div_all_square)
  show ?thesis
    using assms
    by (simp add: finish_cp_def Let_def fill_diagonal_nth [OF s2] div_all_nth [OF sa]
        add_all_nth [OF s1 st] transpose_np_nth [OF s1] div_all_nth [OF assms(1)])
qed

lemma mean_softmax_probability_matrix_eq:
  "mean_softmax_probability_matrix S (Some sl) =
     (let idxs = find_indices (labels S) sl in
      if length idxs \<noteq> length sl then Inl AssertionError
      else init (ix_select
             (finish_cp (fill_cp (exp_all (matrix S)) (length (labels S)) idxs) (real (length sl)))
             idxs idxs) sl)"
  by (simp add: mean_softmax_probability_matrix_def finish_cp_def Let_def)

lemma mean_softmax_probability_matrix_None:
  "mean_softmax_probability_matrix S None = mean_softmax_probability_matrix S (Some (labels S))"
  by (simp add: mean_softmax_probability_matrix_def)

lemma mean_softmax_probability_matrix_returns:
  assumes "set sl \<subseteq> set (labels S)"
  shows "mean_softmax_probability_matrix S (Some sl) =
     Inr \<lparr>matrix = ix_select
             (finish_cp (fill_cp (exp_all (matrix S)) (length (labels S))
                (find_indices (labels S) sl)) (real (length sl)))
             (find_indices (labels S) sl) (find_indices (labels S) sl),
          labels = sl\<rparr>"
proof -
  have len: "length (find_indices (labels S) sl) = length sl"
    using assms by (rule find_indices_length)
  have "square (length sl) (ix_select
             (finish_cp (fill_cp (exp_all (matrix S)) (length (labels S))
                (find_indices (labels S) sl)) (real (length sl)))
             (find_indices (labels S) sl) (find_indices (labels S) sl))"
    using ix_select_square [of "find_indices (labels S) sl"] len by simp
  then show ?thesis
    by (simp add: mean_softmax_probability_matrix_eq Let_def len init_square)
qed

section \<open>Symmetry and unit diagonal of the transform\<close>



section \<open>The entries of the transform\<close>

lemma sum_list_ctmp_row:
  assumes "set ks \<subseteq> {..<n}"
  shows "sum_list (ctmp_row E n ks i j) = (\<Sum>k \<in> set ks - {i, j}. softmax_term E i j k)"
proof -
  have "sum_list (ctmp_row E n ks i j) = (\<Sum>k = 0..<n. ctmp_row E n ks i j ! k)"
    by (simp add: sum_list_sum_nth ctmp_row_length)
  also have "\<dots> = (\<Sum>k = 0..<n. if k \<in> set ks - {i, j} then softmax_term E i j k else 0)"
    by (rule sum.cong) (auto simp: ctmp_row_nth)
  also have "\<dots> = (\<Sum>k \<in> {0..<n} \<inter> (set ks - {i, j}). softmax_term E i j k)"
    by (simp add: sum.inter_restrict)
  also have "{0..<n} \<inter> (set ks - {i, j}) = set ks - {i, j}"
    using assms by auto
  finally show ?thesis .
qed

lemma find_indices_nth:
  assumes "set sl \<subseteq> set ls" and "a < length sl"
  shows "find_indices ls sl ! a < length ls" and "ls ! (find_indices ls sl ! a) = sl ! a"
proof -
  from assms have "sl ! a \<in> set ls" by auto
  then obtain i where i: "index_of ls (sl ! a) = Some i"
    using index_of_mem by fastforce
  have "find_indices ls sl ! a = i"
    using assms i by (simp add: find_indices_all)
  then show "find_indices ls sl ! a < length ls" and "ls ! (find_indices ls sl ! a) = sl ! a"
    using i index_of_less index_of_nth by fastforce+
qed

lemma exp_all_nth:
  "valid S \<Longrightarrow> i < length (labels S) \<Longrightarrow> j < length (labels S) \<Longrightarrow>
   exp_all (matrix S) ! i ! j = exp (matrix S ! i ! j)"
  by (simp add: valid_def exp_all_def list_all_length)

lemma symmetric_nth:
  "symmetric M \<Longrightarrow> i < length M \<Longrightarrow> j < length M \<Longrightarrow> M ! i ! j = M ! j ! i"
  by (simp add: symmetric_def list_all_length)

lemma softmax_term_swap:
  assumes "valid S" and "symmetric (matrix S)"
    and "i < length (labels S)" and "j < length (labels S)" and "k < length (labels S)"
  shows "softmax_term (exp_all (matrix S)) j i k = softmax_term (exp_all (matrix S)) i j k"
proof -
  have len: "length (matrix S) = length (labels S)"
    using assms(1) by (simp add: valid_def)
  have "matrix S ! j ! i = matrix S ! i ! j"
    using assms len by (simp add: symmetric_nth)
  then show ?thesis
    using assms by (simp add: softmax_term_def exp_all_nth add.commute add.left_commute)
qed

lemma mean_softmax_entry_general:
  assumes "set sl \<subseteq> set (labels S)" and "a < length sl" and "b < length sl"
    and "sl ! a \<noteq> sl ! b"
  shows "\<exists>R. mean_softmax_probability_matrix S (Some sl) = Inr R \<and>
     matrix R ! a ! b =
       ((\<Sum>k \<in> set (find_indices (labels S) sl)
              - {find_indices (labels S) sl ! a, find_indices (labels S) sl ! b}.
           softmax_term (exp_all (matrix S))
             (find_indices (labels S) sl ! a) (find_indices (labels S) sl ! b) k)
          / real (length sl)
        + (\<Sum>k \<in> set (find_indices (labels S) sl)
              - {find_indices (labels S) sl ! b, find_indices (labels S) sl ! a}.
           softmax_term (exp_all (matrix S))
             (find_indices (labels S) sl ! b) (find_indices (labels S) sl ! a) k)
          / real (length sl)) / 2"
proof -
  let ?n = "length (labels S)"
  let ?idxs = "find_indices (labels S) sl"
  let ?E = "exp_all (matrix S)"
  let ?C = "fill_cp ?E ?n ?idxs"
  let ?F = "finish_cp ?C (real (length sl))"
  let ?R = "\<lparr>matrix = ix_select ?F ?idxs ?idxs, labels = sl\<rparr>"
  have ret: "mean_softmax_probability_matrix S (Some sl) = Inr ?R"
    using assms(1) by (rule mean_softmax_probability_matrix_returns)
  have len: "length ?idxs = length sl"
    using assms(1) by (rule find_indices_length)
  have sub: "set ?idxs \<subseteq> {..<?n}"
    using find_indices_less by fastforce
  have sqC: "square ?n ?C" using sub by (rule fill_cp_square)
  have ia: "?idxs ! a < ?n" and ib: "?idxs ! b < ?n"
    using assms by (simp_all add: find_indices_nth)
  have neq: "?idxs ! a \<noteq> ?idxs ! b"
    using assms find_indices_nth(2) [OF assms(1)] by metis
  have ma: "?idxs ! a \<in> set ?idxs" and mb: "?idxs ! b \<in> set ?idxs"
    using assms len by simp_all
  have Cab: "?C ! (?idxs ! a) ! (?idxs ! b) =
      (\<Sum>k \<in> set ?idxs - {?idxs ! a, ?idxs ! b}. softmax_term ?E (?idxs ! a) (?idxs ! b) k)"
    using neq ma mb by (simp add: fill_cp_nth [OF sub ia ib] sum_list_ctmp_row [OF sub])
  have Cba: "?C ! (?idxs ! b) ! (?idxs ! a) =
      (\<Sum>k \<in> set ?idxs - {?idxs ! b, ?idxs ! a}. softmax_term ?E (?idxs ! b) (?idxs ! a) k)"
    using neq ma mb by (simp add: fill_cp_nth [OF sub ib ia] sum_list_ctmp_row [OF sub])
  have "matrix ?R ! a ! b = ?F ! (?idxs ! a) ! (?idxs ! b)"
    using assms len by (simp add: ix_select_nth)
  also have "\<dots> = (?C ! (?idxs ! a) ! (?idxs ! b) / real (length sl)
       + ?C ! (?idxs ! b) ! (?idxs ! a) / real (length sl)) / 2"
    using neq by (simp add: finish_cp_nth [OF sqC ia ib])
  finally show ?thesis
    using ret by (simp only: Cab Cba) simp
qed

text \<open>
  Claim C1, as amended.  For a source matrix that is symmetric, and requested labels that
  are labels of the source, the entry of the result for two distinct requested conditions
  \<open>i\<close> and \<open>j\<close> is the sum of
  \<open>exp(S[i,j]) / (exp(S[i,j]) + exp(S[i,k]) + exp(S[j,k]))\<close> over the conditions \<open>k\<close> of the
  requested subset other than \<open>i\<close> and \<open>j\<close>, divided by the number of requested labels.
  The conditions outside the subset contribute nothing: the loop is \<^verbatim>\<open>for k in idxs\<close>.
\<close>

theorem mean_softmax_entry_over_subset:
  assumes "valid S" and "symmetric (matrix S)"
    and "set sl \<subseteq> set (labels S)" and "a < length sl" and "b < length sl"
    and "sl ! a \<noteq> sl ! b"
  shows "\<exists>R. mean_softmax_probability_matrix S (Some sl) = Inr R \<and>
     matrix R ! a ! b =
       (\<Sum>k \<in> set (find_indices (labels S) sl)
              - {find_indices (labels S) sl ! a, find_indices (labels S) sl ! b}.
           softmax_term (exp_all (matrix S))
             (find_indices (labels S) sl ! a) (find_indices (labels S) sl ! b) k)
          / real (length sl)"
proof -
  let ?n = "length (labels S)"
  let ?idxs = "find_indices (labels S) sl"
  let ?E = "exp_all (matrix S)"
  have ia: "?idxs ! a < ?n" and ib: "?idxs ! b < ?n"
    using assms by (simp_all add: find_indices_nth)
  have swap: "(\<Sum>k \<in> set ?idxs - {?idxs ! b, ?idxs ! a}. softmax_term ?E (?idxs ! b) (?idxs ! a) k)
      = (\<Sum>k \<in> set ?idxs - {?idxs ! a, ?idxs ! b}. softmax_term ?E (?idxs ! a) (?idxs ! b) k)"
  proof (rule sum.cong)
    show "set ?idxs - {?idxs ! b, ?idxs ! a} = set ?idxs - {?idxs ! a, ?idxs ! b}" by auto
  next
    fix k assume "k \<in> set ?idxs - {?idxs ! a, ?idxs ! b}"
    then have "k < ?n" using find_indices_less by fastforce
    then show "softmax_term ?E (?idxs ! b) (?idxs ! a) k = softmax_term ?E (?idxs ! a) (?idxs ! b) k"
      using assms(1,2) ia ib by (simp add: softmax_term_swap)
  qed
  from mean_softmax_entry_general [OF assms(3-6)]
  obtain R where R: "mean_softmax_probability_matrix S (Some sl) = Inr R"
    and entry: "matrix R ! a ! b =
       ((\<Sum>k \<in> set ?idxs - {?idxs ! a, ?idxs ! b}. softmax_term ?E (?idxs ! a) (?idxs ! b) k)
          / real (length sl)
        + (\<Sum>k \<in> set ?idxs - {?idxs ! b, ?idxs ! a}. softmax_term ?E (?idxs ! b) (?idxs ! a) k)
          / real (length sl)) / 2"
    by blast
  have "matrix R ! a ! b =
      (\<Sum>k \<in> set ?idxs - {?idxs ! a, ?idxs ! b}. softmax_term ?E (?idxs ! a) (?idxs ! b) k)
          / real (length sl)"
    unfolding entry swap by simp
  with R show ?thesis by blast
qed

lemma find_indices_abc_ab: "find_indices [''a'', ''b'', ''c''] [''a'', ''b''] = [0, 1]"
  by (simp add: find_indices_def)

lemma find_indices_abc_abc: "find_indices [''a'', ''b'', ''c''] [''a'', ''b'', ''c''] = [0, 1, 2]"
  by (simp add: find_indices_def)

lemma zero3_subset_ab:
  "mean_softmax_probability_matrix zero3 (Some [''a'', ''b'']) =
     Inr \<lparr>matrix = [[1, 0], [0, 1]], labels = [''a'', ''b'']\<rparr>"
  by (simp add: zero3_def mean_softmax_probability_matrix_def find_indices_abc_ab Let_def fill_cp_def
      ctmp_row_def zeros2_def exp_all_def div_all_def add_all_def transpose_np_def
      fill_diagonal_def ix_select_def init_def shape0_def shape1_def softmax_term_def
      eval_nat_numeral)

lemma zero3_full:
  "mean_softmax_probability_matrix zero3 None =
     Inr \<lparr>matrix = [[1, 1 / 9, 1 / 9], [1 / 9, 1, 1 / 9], [1 / 9, 1 / 9, 1]],
          labels = [''a'', ''b'', ''c'']\<rparr>"
  by (simp add: zero3_def mean_softmax_probability_matrix_def find_indices_abc_abc Let_def
      fill_cp_def ctmp_row_def zeros2_def exp_all_def div_all_def add_all_def transpose_np_def
      fill_diagonal_def ix_select_def init_def shape0_def shape1_def softmax_term_def
      eval_nat_numeral)

text \<open>
  With three conditions of similarity zero and the subset \<open>a, b\<close>, the only third
  condition is \<open>c\<close>, outside the subset: the code's entry is 0, the entry of the
  specification's wording is 1/6.
\<close>

theorem full_set_sum_counterexample:
  "mean_softmax_probability_matrix zero3 (Some [''a'', ''b'']) =
     Inr \<lparr>matrix = [[1, 0], [0, 1]], labels = [''a'', ''b'']\<rparr> \<and>
   full_set_mean_softmax_entry zero3 [''a'', ''b''] 0 1 = 1 / 6"
  by (simp add: zero3_subset_ab)
    (simp add: zero3_def full_set_mean_softmax_entry_def exp_all_def softmax_term_def eval_nat_numeral)

text \<open>
  On the same input the two orders of narrowing differ by 1/9 off the diagonal.
\<close>

theorem subset_before_or_after_counterexample:
  "mean_softmax_probability_matrix zero3 (Some [''a'', ''b'']) =
     Inr \<lparr>matrix = [[1, 0], [0, 1]], labels = [''a'', ''b'']\<rparr> \<and>
   full_then_for_subset zero3 [''a'', ''b''] =
     Inr \<lparr>matrix = [[1, 1 / 9], [1 / 9, 1]], labels = [''a'', ''b'']\<rparr>"
  by (simp add: zero3_subset_ab full_then_for_subset_def zero3_full SimilarityMatrix_for_subset_def
      for_subset_def find_indices_abc_ab ix_select_def init_def shape0_def shape1_def)

theorem mean_softmax_entry_over_subset_witness:
  "valid zero3 \<and> symmetric (matrix zero3) \<and>
   set [''a'', ''b'', ''c''] \<subseteq> set (labels zero3) \<and>
   (\<exists>R. mean_softmax_probability_matrix zero3 (Some [''a'', ''b'', ''c'']) = Inr R \<and>
        matrix R ! 0 ! 1 = 1 / 9)"
proof -
  have v: "valid zero3" by (simp add: valid_def zero3_def)
  have s: "symmetric (matrix zero3)" by (simp add: symmetric_def zero3_def eval_nat_numeral)
  have l: "set [''a'', ''b'', ''c''] \<subseteq> set (labels zero3)" by (simp add: zero3_def)
  have i: "find_indices (labels zero3) [''a'', ''b'', ''c''] = [0, 1, 2]"
    by (simp add: zero3_def find_indices_abc_abc)
  have d: "set [0, 1, 2 :: nat] - {0, 1} = {2}" by auto
  have e: "softmax_term (exp_all (matrix zero3)) 0 (Suc 0) 2 = 1 / 3"
    by (simp add: zero3_def softmax_term_def exp_all_def eval_nat_numeral)
  from mean_softmax_entry_over_subset [OF v s l, of 0 1]
  obtain R where R: "mean_softmax_probability_matrix zero3 (Some [''a'', ''b'', ''c'']) = Inr R"
    and "matrix R ! 0 ! 1 * 3 = softmax_term (exp_all (matrix zero3)) 0 (Suc 0) 2"
    by (auto simp: i d)
  then have "matrix R ! 0 ! 1 = 1 / 9"
    by (simp add: e)
  with R v s l show ?thesis by blast
qed

section \<open>Narrowing before and after the transform\<close>

lemma square_eqI:
  assumes "square n A" and "square n B"
    and "\<And>a b. a < n \<Longrightarrow> b < n \<Longrightarrow> A ! a ! b = B ! a ! b"
  shows "A = B"
proof (rule nth_equalityI)
  show "length A = length B" using assms(1,2) by (simp add: square_def)
next
  fix a assume "a < length A"
  then have a: "a < n" using assms(1) by (simp add: square_def)
  show "A ! a = B ! a"
  proof (rule nth_equalityI)
    show "length (A ! a) = length (B ! a)"
      using assms(1,2) a by (simp add: square_nth)
  next
    fix b assume "b < length (A ! a)"
    then have "b < n" using assms(1) a by (simp add: square_nth)
    with a show "A ! a ! b = B ! a ! b" by (rule assms(3))
  qed
qed

lemma fill_cp_set_cong:
  assumes "set idxs \<subseteq> {..<n}" and "set idxs' = set idxs"
  shows "fill_cp E n idxs' = fill_cp E n idxs"
proof (rule square_eqI [where n = n])
  have sub': "set idxs' \<subseteq> {..<n}" using assms by simp
  show "square n (fill_cp E n idxs')" using sub' by (rule fill_cp_square)
  show "square n (fill_cp E n idxs)" using assms(1) by (rule fill_cp_square)
  fix a b assume "a < n" and "b < n"
  then show "fill_cp E n idxs' ! a ! b = fill_cp E n idxs ! a ! b"
    by (simp add: fill_cp_nth [OF sub'] fill_cp_nth [OF assms(1)]
        sum_list_ctmp_row [OF sub'] sum_list_ctmp_row [OF assms(1)] assms(2))
qed

lemma index_of_distinct:
  "distinct ls \<Longrightarrow> i < length ls \<Longrightarrow> index_of ls (ls ! i) = Some i"
proof (induction ls arbitrary: i)
  case Nil
  then show ?case by simp
next
  case (Cons x xs)
  show ?case
  proof (cases i)
    case 0
    then show ?thesis by simp
  next
    case (Suc k)
    with Cons.prems have "k < length xs" and "xs ! k \<in> set xs" and "x \<notin> set xs" by auto
    then have "x \<noteq> xs ! k" by auto
    then show ?thesis
      using Suc Cons.IH [of k] Cons.prems by simp
  qed
qed

lemma find_indices_self:
  assumes "distinct ls"
  shows "find_indices ls ls = [0..<length ls]"
proof (rule nth_equalityI)
  show "length (find_indices ls ls) = length [0..<length ls]"
    by (simp add: find_indices_length)
next
  fix i assume "i < length (find_indices ls ls)"
  then have "i < length ls" by (simp add: find_indices_length)
  then show "find_indices ls ls ! i = [0..<length ls] ! i"
    using assms by (simp add: find_indices_all index_of_distinct)
qed

lemma ix_select_all: "square n M \<Longrightarrow> ix_select M [0..<n] [0..<n] = M"
  by (rule square_eqI [where n = n])
    (use ix_select_square [of "[0..<n]" M] in \<open>simp_all add: ix_select_nth\<close>)

lemma find_indices_onto:
  assumes "distinct ls" and "set ls \<subseteq> set sl"
  shows "{..<length ls} \<subseteq> set (find_indices ls sl)"
proof
  fix i assume "i \<in> {..<length ls}"
  then have i: "i < length ls" by simp
  then have "ls ! i \<in> set sl" using assms(2) by auto
  moreover have "index_of ls (ls ! i) = Some i"
    using assms(1) i by (rule index_of_distinct)
  ultimately show "i \<in> set (find_indices ls sl)"
    by (force simp: find_indices_def List.map_filter_def)
qed

text \<open>
  Claim C2, as amended.  When the labels of the source are distinct and the requested list
  names each of them exactly once, in any order, passing the list as \<open>subset_labels\<close>
  returns the very matrix that the transform of the full label set followed by
  \<open>for_subset\<close> returns.
\<close>

theorem reordered_full_set_agrees:
  assumes "distinct (labels S)" and "distinct sl" and "set sl = set (labels S)"
  shows "\<exists>R. mean_softmax_probability_matrix S (Some sl) = Inr R \<and>
             full_then_for_subset S sl = Inr R"
proof -
  let ?ls = "labels S"
  let ?n = "length ?ls"
  let ?idxs = "find_indices ?ls sl"
  let ?E = "exp_all (matrix S)"
  let ?F = "finish_cp (fill_cp ?E ?n ?idxs) (real (length sl))"
  let ?R = "\<lparr>matrix = ix_select ?F ?idxs ?idxs, labels = sl\<rparr>"
  have sl: "set sl \<subseteq> set ?ls" using assms(3) by simp
  have m: "length sl = ?n"
    using assms distinct_card [of sl] distinct_card [of ?ls] by simp
  have direct: "mean_softmax_probability_matrix S (Some sl) = Inr ?R"
    using sl by (rule mean_softmax_probability_matrix_returns)
  have len: "length ?idxs = length sl" using sl by (rule find_indices_length)
  have sub: "set ?idxs \<subseteq> {..<?n}" using find_indices_less by fastforce
  have "{..<?n} \<subseteq> set ?idxs"
    using assms(1) assms(3) by (simp add: find_indices_onto)
  with sub have "set ?idxs = {..<?n}" by (rule equalityI)
  then have all: "set [0..<?n] = set ?idxs" by (simp add: atLeast0LessThan)
  have fill: "fill_cp ?E ?n [0..<?n] = fill_cp ?E ?n ?idxs"
    using sub all by (rule fill_cp_set_cong)
  have sqF: "square ?n ?F"
    using sub by (simp add: finish_cp_square fill_cp_square)
  have "mean_softmax_probability_matrix S (Some ?ls) =
      Inr \<lparr>matrix = ix_select (finish_cp (fill_cp ?E ?n [0..<?n]) (real ?n)) [0..<?n] [0..<?n],
           labels = ?ls\<rparr>"
    using mean_softmax_probability_matrix_returns [of ?ls S]
    by (simp only: find_indices_self [OF assms(1)] subset_refl)
  also have "finish_cp (fill_cp ?E ?n [0..<?n]) (real ?n) = ?F"
    by (simp only: fill m)
  also have "ix_select ?F [0..<?n] [0..<?n] = ?F"
    using sqF by (rule ix_select_all)
  finally have full: "mean_softmax_probability_matrix S None = Inr \<lparr>matrix = ?F, labels = ?ls\<rparr>"
    by (simp only: mean_softmax_probability_matrix_None)
  have sqR: "square (length sl) (ix_select ?F ?idxs ?idxs)"
    using ix_select_square [of ?idxs ?F] len by simp
  have init: "init (ix_select ?F ?idxs ?idxs) sl = Inr ?R"
    using sqR by (rule init_square)
  have sub_full: "for_subset \<lparr>matrix = ?F, labels = ?ls\<rparr> sl = Inr ?R"
    by (simp add: for_subset_def Let_def len init)
  have "full_then_for_subset S sl = Inr ?R"
    by (simp add: full_then_for_subset_def full SimilarityMatrix_for_subset_def sub_full init)
  with direct show ?thesis by blast
qed

theorem reordered_full_set_agrees_witness:
  "distinct (labels zero3) \<and> distinct [''c'', ''a'', ''b''] \<and>
   set [''c'', ''a'', ''b''] = set (labels zero3) \<and>
   (\<exists>R. mean_softmax_probability_matrix zero3 (Some [''c'', ''a'', ''b'']) = Inr R \<and>
        full_then_for_subset zero3 [''c'', ''a'', ''b''] = Inr R)"
proof -
  have d: "distinct (labels zero3)" by (simp add: zero3_def)
  have e: "distinct [''c'', ''a'', ''b'']" by simp
  have s: "set [''c'', ''a'', ''b''] = set (labels zero3)" by (auto simp: zero3_def)
  show ?thesis
    using d e s reordered_full_set_agrees [OF d e s] by blast
qed

section \<open>The null distribution\<close>

lemma r_perms_loop_length:
  "r_perms_loop P sz c1 rdm_2 k g = Inr (rs, g') \<Longrightarrow> length rs = k"
proof (induction k arbitrary: g rs)
  case 0
  then show ?case by simp
next
  case (Suc k)
  then show ?case
    by (auto split: prod.splits sum.splits)
qed

lemma draws_length: "length (draws P sz k g) = k"
  by (induction k arbitrary: g) (auto split: prod.splits)

lemma r_perms_loop_nth:
  "r_perms_loop P sz c1 rdm_2 k g = Inr (rs, g') \<Longrightarrow> i < k \<Longrightarrow>
   ix_perm rdm_2 (draws P sz k g ! i) = Inr (ix_select rdm_2 (draws P sz k g ! i) (draws P sz k g ! i))
   \<and> permuted_r c1 rdm_2 (draws P sz k g ! i) = Inr (rs ! i)"
proof (induction k arbitrary: g rs i)
  case 0
  then show ?case by simp
next
  case (Suc k)
  obtain perm g1 where P: "P sz g = (perm, g1)" by (cases "P sz g")
  from Suc.prems(1) P obtain M where M: "ix_perm rdm_2 perm = Inr M"
    by (auto split: sum.splits)
  then have Msel: "M = ix_select rdm_2 perm perm"
    by (auto simp: ix_perm_def split: if_splits)
  from Suc.prems(1) P M obtain c2 where c2: "squareform M = Inr c2"
    by (auto split: sum.splits)
  from Suc.prems(1) P M c2 obtain r where r: "corrcoef c1 c2 = Inr r"
    by (auto split: sum.splits)
  from Suc.prems(1) P M c2 r obtain rs' where
    rest: "r_perms_loop P sz c1 rdm_2 k g1 = Inr (rs', g')" and rs: "rs = r # rs'"
    by (auto split: sum.splits prod.splits)
  show ?case
  proof (cases i)
    case 0
    then show ?thesis
      using P M Msel c2 r rs by (simp add: permuted_r_def)
  next
    case (Suc j)
    with Suc.prems(2) have "j < k" by simp
    from Suc.IH [OF rest this] show ?thesis
      using P rs Suc by simp
  qed
qed

section \<open>The p-value\<close>

lemma count_split:
  "length (filter (\<lambda>r. r < s) rs) + length (filter (\<lambda>r. s \<le> r) rs) = length (rs :: real list)"
  by (induction rs) auto

lemma count_no_ties:
  "s \<notin> set rs \<Longrightarrow> length (filter (\<lambda>r. r \<le> s) rs) = length (filter (\<lambda>r. r < s) (rs :: real list))"
  by (induction rs) auto

lemma filter_map_Num:
  "length (filter (\<lambda>x. np_less x s) (map Num rs)) = length (filter (\<lambda>r. r < s) rs)"
  "length (filter (\<lambda>x. np_less_eq x s) (map Num rs)) = length (filter (\<lambda>r. r \<le> s) rs)"
  "length (filter (\<lambda>x. np_greater_eq x s) (map Num rs)) = length (filter (\<lambda>r. s \<le> r) rs)"
  by (induction rs) auto

lemma p_value_of_no_ties:
  assumes "rs \<noteq> []" and "s \<notin> set rs"
  shows "p_value_of (map Num rs) (Num s) = Num (fraction_greater_eq (map Num rs) s)"
proof -
  let ?L = "length (filter (\<lambda>r. r < s) rs)"
  let ?G = "length (filter (\<lambda>r. s \<le> r) rs)"
  have n: "real ?L + real ?G = real (length rs)"
    using count_split [of s rs] by (simp flip: of_nat_add)
  have pos: "real (length rs) \<noteq> 0" using assms(1) by simp
  have eq: "1 - real (?L + ?L) * 50 / real (length rs) / 100 = real ?G / real (length rs)"
    using n pos by (simp add: field_simps)
  have L: "length (filter (\<lambda>x. np_less x s) (map Num rs)) = ?L"
    by (rule filter_map_Num)
  have R: "length (filter (\<lambda>x. np_less_eq x s) (map Num rs)) = ?L"
    by (simp only: filter_map_Num count_no_ties [OF assms(2)])
  have G: "length (filter (\<lambda>x. np_greater_eq x s) (map Num rs)) = ?G"
    by (rule filter_map_Num)
  have "percentileofscore (map Num rs) (Num s) = Num (real (?L + ?L) * 50 / real (length rs))"
    by (simp only: percentileofscore_def np_float.case Let_def L R) (use assms(1) in simp)
  then show ?thesis
    by (simp only: p_value_of_def fraction_greater_eq_def np_float.case G eq length_map)
qed

section \<open>What one iteration of the test does\<close>

lemma draws_permute:
  "permutes_range P \<Longrightarrow> i < k \<Longrightarrow>
   distinct (draws P sz k g ! i) \<and> set (draws P sz k g ! i) = {..<sz}"
proof (induction k arbitrary: g i)
  case 0
  then show ?case by simp
next
  case (Suc k)
  obtain perm g1 where P: "P sz g = (perm, g1)" by (cases "P sz g")
  have perm: "distinct perm \<and> set perm = {..<sz}"
    using Suc.prems(1) P unfolding permutes_range_def by (metis fst_conv)
  show ?case
  proof (cases i)
    case 0
    then show ?thesis using P perm by simp
  next
    case (Suc j)
    with Suc.prems(2) have "j < k" by simp
    with Suc.IH [OF Suc.prems(1) this, of g1] show ?thesis
      using P Suc by simp
  qed
qed

lemma hebart_randomisation_p_48:
  "shape0 rdm_1 = 48 \<Longrightarrow>
   hebart_randomisation_p P rdm_1 rdm_2 observed_r n_perms g =
     randomisation_p P rdm_1 rdm_2 observed_r n_perms g"
  unfolding hebart_randomisation_p_def randomisation_p_def by (erule ssubst) (rule refl)

text \<open>
  Claim C6.  When \<open>randomisation_p\<close> of \<^verbatim>\<open>rsa.py\<close> returns, it has run \<open>n_perms\<close>
  iterations; iteration \<open>i\<close> drew the \<open>i\<close>-th permutation of the generator, a
  permutation of the index set of \<open>rdm_1\<close>, selected the rows and the columns of \<open>rdm_2\<close>
  by it, and correlated the upper triangle of the result with the upper triangle \<open>c1\<close>
  of \<open>rdm_1\<close>, which is computed once, from \<open>rdm_1\<close> as it was given.
\<close>

theorem randomisation_p_permutes_second_matrix:
  assumes "permutes_range P"
    and "randomisation_p P rdm_1 rdm_2 observed_r n_perms g = Inr (p, g')"
  shows "\<exists>c1 rs. squareform rdm_1 = Inr c1 \<and> length rs = n_perms \<and>
           p = p_value_of rs observed_r \<and>
           (\<forall>i < n_perms.
              distinct (draws P (length rdm_1) n_perms g ! i) \<and>
              set (draws P (length rdm_1) n_perms g ! i) = {..<length rdm_1} \<and>
              permuted_r c1 rdm_2 (draws P (length rdm_1) n_perms g ! i) = Inr (rs ! i))"
proof -
  from assms(2) obtain c1 where c1: "squareform rdm_1 = Inr c1"
    by (auto simp: randomisation_p_def split: sum.splits)
  from assms(2) c1 obtain rs where
    loop: "r_perms_loop P (length rdm_1) c1 rdm_2 n_perms g = Inr (rs, g')"
    and p: "p = p_value_of rs observed_r"
    by (auto simp: randomisation_p_def shape0_def split: sum.splits prod.splits)
  have len: "length rs = n_perms" using loop by (rule r_perms_loop_length)
  have "distinct (draws P (length rdm_1) n_perms g ! i) \<and>
        set (draws P (length rdm_1) n_perms g ! i) = {..<length rdm_1} \<and>
        permuted_r c1 rdm_2 (draws P (length rdm_1) n_perms g ! i) = Inr (rs ! i)"
    if "i < n_perms" for i
    using draws_permute [OF assms(1) that] r_perms_loop_nth [OF loop that] by simp
  with c1 len p show ?thesis by blast
qed

section \<open>Degenerate correlations\<close>

lemma squareform_length:
  assumes "squareform X = Inr c" and "squareform Y = Inr d" and "length X = length Y"
  shows "length c = length d"
proof -
  have "c = concat (map (\<lambda>i. map (\<lambda>j. X ! i ! j) [Suc i..<length X]) [0..<length X])"
    using assms(1) by (auto simp: squareform_def split: if_splits)
  moreover have "d = concat (map (\<lambda>i. map (\<lambda>j. Y ! i ! j) [Suc i..<length Y]) [0..<length Y])"
    using assms(2) by (auto simp: squareform_def split: if_splits)
  ultimately show ?thesis
    using assms(3) by (simp add: length_concat comp_def)
qed

section \<open>The test on three conditions\<close>

lemma shape0_rdm3: "shape0 rdm3 = 3"
  by (simp add: shape0_def rdm3_def)

lemma length_rdm3: "length rdm3 = 3"
  by (simp add: rdm3_def)

lemma squareform_rdm3: "squareform rdm3 = Inr [1, 2, 3]"
  by (simp add: squareform_def rdm3_def shape0_def shape1_def symmetric_def eval_nat_numeral)

lemma corrcoef_123_123: "corrcoef [1, 2, 3] [1, 2, 3] = Inr (Num 1)"
  by (simp add: corrcoef_def cov_def mean_def)

lemma corrcoef_123_312: "corrcoef [1, 2, 3] [3, 1, 2] = Inr (Num (- 1 / 2))"
  by (simp add: corrcoef_def cov_def mean_def)

lemma rotating_3_0: "rotating 3 0 = ([0, 1, 2], Suc 0)"
  by (simp add: rotating_def eval_nat_numeral)

lemma rotating_3_1: "rotating 3 (Suc 0) = ([1, 2, 0], 2)"
  by (simp add: rotating_def eval_nat_numeral)

lemma ix_perm_rdm3_012: "ix_perm rdm3 [0, 1, 2] = Inr rdm3"
  by (simp add: ix_perm_def rdm3_def shape0_def shape1_def ix_select_def)

lemma ix_perm_rdm3_120: "ix_perm rdm3 [1, 2, 0] = Inr [[0, 3, 1], [3, 0, 2], [1, 2, 0]]"
  by (simp add: ix_perm_def rdm3_def shape0_def shape1_def ix_select_def)

lemma squareform_rdm3_120: "squareform [[0, 3, 1], [3, 0, 2], [1, 2, 0]] = Inr [3, 1, 2]"
  by (simp add: squareform_def shape0_def shape1_def symmetric_def eval_nat_numeral)

lemma r_perms_loop_one:
  "r_perms_loop P sz c1 rdm_2 (Suc 0) g =
     (case P sz g of
        (perm, g') \<Rightarrow>
          (case ix_perm rdm_2 perm of
             Inl e \<Rightarrow> Inl e
           | Inr M \<Rightarrow>
               (case squareform M of
                  Inl e \<Rightarrow> Inl e
                | Inr c2 \<Rightarrow>
                    (case corrcoef c1 c2 of
                       Inl e \<Rightarrow> Inl e
                     | Inr r \<Rightarrow> Inr ([r], g')))))"
  by (simp split: prod.splits sum.splits)

lemma null_from_0: "r_perms_loop rotating 3 [1, 2, 3] rdm3 (Suc 0) 0 = Inr ([Num 1], Suc 0)"
  by (simp only: r_perms_loop_one rotating_3_0 prod.case ix_perm_rdm3_012 sum.case
      squareform_rdm3 corrcoef_123_123)

lemma null_from_1: "r_perms_loop rotating 3 [1, 2, 3] rdm3 (Suc 0) (Suc 0) = Inr ([Num (- 1 / 2)], 2)"
  by (simp only: r_perms_loop_one rotating_3_1 prod.case ix_perm_rdm3_120 sum.case
      squareform_rdm3_120 corrcoef_123_312)

lemma randomisation_p_from_0:
  "randomisation_p rotating rdm3 rdm3 observed_r (Suc 0) 0 = Inr (p_value_of [Num 1] observed_r, Suc 0)"
  by (simp only: randomisation_p_def squareform_rdm3 sum.case shape0_rdm3 null_from_0 prod.case)

lemma randomisation_p_from_1:
  "randomisation_p rotating rdm3 rdm3 observed_r (Suc 0) (Suc 0) =
     Inr (p_value_of [Num (- 1 / 2)] observed_r, 2)"
  by (simp only: randomisation_p_def squareform_rdm3 sum.case shape0_rdm3 null_from_1 prod.case)

text \<open>
  The observed correlation of a matrix with itself is 1, and so is the one value of the
  null distribution when the permutation drawn is the identity.  The fraction of the
  null distribution at or above the observed value is 1; the function returns 0.
\<close>

theorem randomisation_p_tie_counterexample:
  "r_perms_loop rotating (shape0 rdm3) [1, 2, 3] rdm3 (Suc 0) 0 = Inr ([Num 1], Suc 0) \<and>
   fraction_greater_eq [Num 1] 1 = 1 \<and>
   randomisation_p rotating rdm3 rdm3 (Num 1) (Suc 0) 0 = Inr (Num 0, Suc 0)"
proof -
  have "r_perms_loop rotating (shape0 rdm3) [1, 2, 3] rdm3 (Suc 0) 0 = Inr ([Num 1], Suc 0)"
    by (simp only: shape0_rdm3 null_from_0)
  moreover have "fraction_greater_eq [Num 1] 1 = 1"
    by (simp add: fraction_greater_eq_def)
  moreover have "randomisation_p rotating rdm3 rdm3 (Num 1) (Suc 0) 0 = Inr (Num 0, Suc 0)"
    by (simp add: randomisation_p_from_0 p_value_of_def percentileofscore_def)
  ultimately show ?thesis by blast
qed

lemma permutes_range_rotating: "permutes_range rotating"
  by (auto simp: permutes_range_def rotating_def)

theorem randomisation_p_permutes_second_matrix_witness:
  "permutes_range rotating \<and>
   randomisation_p rotating rdm3 rdm3 (Num (1 / 2)) (Suc 0) (Suc 0) = Inr (Num 0, 2) \<and>
   (\<exists>c1 rs. squareform rdm3 = Inr c1 \<and> length rs = Suc 0 \<and>
      Num 0 = p_value_of rs (Num (1 / 2)) \<and>
      (\<forall>i < Suc 0.
         distinct (draws rotating (length rdm3) (Suc 0) (Suc 0) ! i) \<and>
         set (draws rotating (length rdm3) (Suc 0) (Suc 0) ! i) = {..<length rdm3} \<and>
         permuted_r c1 rdm3 (draws rotating (length rdm3) (Suc 0) (Suc 0) ! i) = Inr (rs ! i)))"
proof -
  have p: "randomisation_p rotating rdm3 rdm3 (Num (1 / 2)) (Suc 0) (Suc 0) = Inr (Num 0, 2)"
    by (simp add: randomisation_p_from_1 p_value_of_def percentileofscore_def)
  show ?thesis
    using permutes_range_rotating p
      randomisation_p_permutes_second_matrix [OF permutes_range_rotating p]
    by blast
qed

text \<open>
  Claim C4, on the code.  Two processes run \<^verbatim>\<open>seed(2)\<close> and then the same test of one permutation on the same
  matrices with the same observed correlation; numpy's generator, which \<^verbatim>\<open>seed\<close> does
  not touch, is in a different state in each.  The p-values are 1 and 0.
\<close>

theorem seeded_runs_differ:
  "seeded_run rotating rdm3 rdm3 (Num (1 / 2)) (Suc 0) \<lparr>python_random = None, numpy_random = 0\<rparr>
     = Inr (Num 1) \<and>
   seeded_run rotating rdm3 rdm3 (Num (1 / 2)) (Suc 0) \<lparr>python_random = None, numpy_random = Suc 0\<rparr>
     = Inr (Num 0)"
  by (simp add: seeded_run_def seed_def randomisation_p_from_0 randomisation_p_from_1
      p_value_of_def percentileofscore_def)

lemma squareform_const3: "squareform (matrix const3) = Inr [1, 1, 1]"
  by (simp add: const3_def squareform_def shape0_def shape1_def symmetric_def eval_nat_numeral)

theorem correlate_with_nan_counterexample: "correlate_with const3 const3 = Inr NaN"
  by (simp add: correlate_with_def squareform_const3 corrcoef_def cov_def mean_def)

section \<open>Missing words in the predictor builder\<close>

lemma calc_sensorimotor_distance_None:
  "calc_sensorimotor_distance sn distance w1 w2 = None \<longleftrightarrow> w1 \<notin> dom sn \<or> w2 \<notin> dom sn"
  by (auto simp: calc_sensorimotor_distance_def vector_for_word_def
      split: option.splits sum.splits norms_error.splits)

lemma calc_sensorimotor_distance_Some:
  "sn w1 = Some v1 \<Longrightarrow> sn w2 = Some v2 \<Longrightarrow>
   calc_sensorimotor_distance sn distance w1 w2 = Some (distance v1 v2)"
  by (simp add: calc_sensorimotor_distance_def vector_for_word_def)

lemma map_of_append_new:
  "k \<notin> fst ` set xs \<Longrightarrow> map_of (xs @ [(k, v)]) k = Some v"
  by (induction xs) auto

text \<open>
  Claim C9.  When the frame has both key columns and not yet the predictor column, the
  builder returns the frame with one more column, the predictor; the word columns and the
  other value columns are as they were; and the cell of the predictor in row \<open>i\<close> is
  missing exactly when one of the two key words of row \<open>i\<close> is not in the norms, and is
  otherwise the distance of the two vectors of that row.  The lookup failure of one row
  is caught in that row: the builder returns, and the cell of a row depends on the
  words of that row alone.
\<close>

theorem add_sensorimotor_predictor_missing_word:
  assumes "predictor_name t \<notin> set (columns d)"
    and "map_of (word_columns d) k1 = Some ws1"
    and "map_of (word_columns d) k2 = Some ws2"
  shows "\<exists>d' col.
     add_sensorimotor_predictor sn distance d (k1, k2) t = Inr d' \<and>
     n_rows d' = n_rows d \<and> word_columns d' = word_columns d \<and>
     value_columns d' = value_columns d @ [(predictor_name t, col)] \<and>
     map_of (value_columns d') (predictor_name t) = Some col \<and>
     length col = n_rows d \<and>
     (\<forall>i < n_rows d.
        (col ! i = None \<longleftrightarrow> ws1 ! i \<notin> dom sn \<or> ws2 ! i \<notin> dom sn) \<and>
        (\<forall>v1 v2. sn (ws1 ! i) = Some v1 \<longrightarrow> sn (ws2 ! i) = Some v2 \<longrightarrow>
           col ! i = Some (distance v1 v2)))"
proof -
  let ?col = "map (\<lambda>i. calc_sensorimotor_distance sn distance (ws1 ! i) (ws2 ! i)) [0..<n_rows d]"
  let ?d' = "d\<lparr>value_columns := value_columns d @ [(predictor_name t, ?col)]\<rparr>"
  have ret: "add_sensorimotor_predictor sn distance d (k1, k2) t = Inr ?d'"
    using assms by (simp add: add_sensorimotor_predictor_def)
  have new: "predictor_name t \<notin> fst ` set (value_columns d)"
    using assms(1) by (simp add: columns_def)
  have look: "map_of (value_columns ?d') (predictor_name t) = Some ?col"
  proof -
    have v: "value_columns ?d' = value_columns d @ [(predictor_name t, ?col)]" by simp
    show ?thesis unfolding v using new by (rule map_of_append_new)
  qed
  have cells: "(?col ! i = None \<longleftrightarrow> ws1 ! i \<notin> dom sn \<or> ws2 ! i \<notin> dom sn) \<and>
        (\<forall>v1 v2. sn (ws1 ! i) = Some v1 \<longrightarrow> sn (ws2 ! i) = Some v2 \<longrightarrow>
           ?col ! i = Some (distance v1 v2))" if "i < n_rows d" for i
    using that by (simp add: calc_sensorimotor_distance_None calc_sensorimotor_distance_Some)
  show ?thesis
    using ret look cells by (intro exI [of _ ?d'] exI [of _ ?col]) simp
qed

lemma builder_example:
  "add_sensorimotor_predictor norms2 manhattan pairs3 (''CUE'', ''TARGET'') ''Minkowski3'' =
     Inr (pairs3\<lparr>value_columns :=
            [(''Sensorimotor distance (Minkowski3)'', [Some 2, None, Some 0])]\<rparr>)"
  by (simp add: add_sensorimotor_predictor_def predictor_name_def columns_def pairs3_def
      calc_sensorimotor_distance_def vector_for_word_def norms2_def manhattan_def
      eval_nat_numeral)

theorem add_sensorimotor_predictor_missing_word_witness:
  "predictor_name ''Minkowski3'' \<notin> set (columns pairs3) \<and>
   map_of (word_columns pairs3) ''CUE'' = Some [''cat'', ''dog'', ''cat''] \<and>
   map_of (word_columns pairs3) ''TARGET'' = Some [''dog'', ''zyx'', ''cat''] \<and>
   (\<exists>d' col.
     add_sensorimotor_predictor norms2 manhattan pairs3 (''CUE'', ''TARGET'') ''Minkowski3''
       = Inr d' \<and>
     n_rows d' = n_rows pairs3 \<and> word_columns d' = word_columns pairs3 \<and>
     value_columns d' = value_columns pairs3 @ [(predictor_name ''Minkowski3'', col)] \<and>
     map_of (value_columns d') (predictor_name ''Minkowski3'') = Some col \<and>
     length col = n_rows pairs3 \<and>
     (\<forall>i < n_rows pairs3.
        (col ! i = None \<longleftrightarrow>
           [''cat'', ''dog'', ''cat''] ! i \<notin> dom norms2 \<or>
           [''dog'', ''zyx'', ''cat''] ! i \<notin> dom norms2) \<and>
        (\<forall>v1 v2. norms2 ([''cat'', ''dog'', ''cat''] ! i) = Some v1 \<longrightarrow>
           norms2 ([''dog'', ''zyx'', ''cat''] ! i) = Some v2 \<longrightarrow>
           col ! i = Some (manhattan v1 v2))))"
proof -
  have a: "predictor_name ''Minkowski3'' \<notin> set (columns pairs3)"
    by (simp add: predictor_name_def columns_def pairs3_def)
  have b: "map_of (word_columns pairs3) ''CUE'' = Some [''cat'', ''dog'', ''cat'']"
    by (simp add: pairs3_def)
  have c: "map_of (word_columns pairs3) ''TARGET'' = Some [''dog'', ''zyx'', ''cat'']"
    by (simp add: pairs3_def)
  show ?thesis
    using a b c
      add_sensorimotor_predictor_missing_word [OF a b c, of norms2 manhattan]
    by blast
qed

section \<open>Selected words that are not among the words\<close>

lemma searchsorted_length: "length (searchsorted a v) = length v"
  by (simp add: searchsorted_def)

lemma insertion_point_le: "length (takeWhile P a) \<le> length a"
  by (rule length_takeWhile_le)

lemma takeWhile_stops:
  "length (takeWhile P a) < length a \<longleftrightarrow> (\<exists>x \<in> set a. \<not> P x)"
  by (induction a) simp_all

lemma insertion_point_less:
  "length (takeWhile (\<lambda>x. x < w) a) < length a \<longleftrightarrow> (\<exists>x \<in> set a. w \<le> (x :: string))"
  unfolding takeWhile_stops by (simp only: not_less)

lemma positions_in_range:
  "list_all (\<lambda>k. k < length a) (searchsorted a v) \<longleftrightarrow> (\<forall>w \<in> set v. \<exists>x \<in> set a. w \<le> x)"
  by (simp add: searchsorted_def list_all_iff insertion_point_less)


section \<open>Rounding\<close>

declare bits.simps [simp del]

lemma bits_0: "bits 0 = 0"
  by (simp add: bits.simps)

lemma bits_pos: "0 < n \<Longrightarrow> bits n = Suc (bits (n div 2))"
  by (simp add: bits.simps)

lemma bits_bounds: "0 < n \<Longrightarrow> 2 ^ (bits n - 1) \<le> n \<and> n < 2 ^ bits n"
proof (induction n rule: bits.induct)
  case (1 n)
  show ?case
  proof (cases "n div 2 = 0")
    case True
    with 1(2) have "n = 1" by (simp add: div_eq_0_iff)
    then show ?thesis by (simp add: bits_pos bits_0)
  next
    case False
    then have pos: "0 < n div 2" by simp
    from 1(1) [OF _ pos] 1(2)
    have ih: "2 ^ (bits (n div 2) - 1) \<le> n div 2" "n div 2 < 2 ^ bits (n div 2)" by auto
    have b: "bits (n div 2) = Suc (bits (n div 2) - 1)"
      using pos by (simp add: bits_pos)
    have "2 ^ bits (n div 2) \<le> n"
    proof -
      have "2 * 2 ^ (bits (n div 2) - 1) \<le> 2 * (n div 2)" using ih(1) by simp
      also have "\<dots> \<le> n" by simp
      finally show ?thesis by (subst b) simp
    qed
    moreover have "n < 2 * 2 ^ bits (n div 2)"
      using ih(2) by linarith
    ultimately show ?thesis
      using 1(2) by (simp add: bits_pos)
  qed
qed

lemma bits_eqI:
  assumes "2 ^ b \<le> n" and "n < 2 ^ Suc b"
  shows "bits n = Suc b"
proof -
  have pos: "0 < n" using assms(1) by (metis gr0I not_less zero_less_numeral zero_less_power)
  from bits_bounds [OF pos] have lo: "2 ^ (bits n - 1) \<le> n" and hi: "n < 2 ^ bits n" by auto
  have "(2::nat) ^ b < 2 ^ bits n" using assms(1) hi by linarith
  then have 1: "b < bits n" by (simp add: power_strict_increasing_iff)
  have "(2::nat) ^ (bits n - 1) < 2 ^ Suc b" using lo assms(2) by linarith
  then have 2: "bits n - 1 < Suc b" by (rule power_less_imp_less_exp [rotated]) simp
  from 1 2 show ?thesis by linarith
qed

lemma bits_a: "bits 32425917317067571 = 55"
proof -
  have "bits 32425917317067571 = Suc 54"
    by (rule bits_eqI) simp_all
  then show ?thesis by simp
qed

lemma bits_b: "bits 900719925474099 \<le> 53"
proof -
  have "bits 900719925474099 = Suc 49"
    by (rule bits_eqI) simp_all
  then show ?thesis by simp
qed

lemma fsub_one_tenth: "fsub one tenth = \<lparr>mant = 8106479329266893, expo = - 53\<rparr>"
  by (simp add: fsub_def one_def tenth_def round_mant_def bits_a Let_def)

lemma bits_le: "n < 2 ^ b \<Longrightarrow> bits n \<le> b"
proof (cases "n = 0")
  case True
  then show ?thesis by (simp add: bits_0)
next
  case False
  assume "n < 2 ^ b"
  moreover from False bits_bounds [of n] have "2 ^ (bits n - 1) \<le> n" by simp
  ultimately have "(2::nat) ^ (bits n - 1) < 2 ^ b" by linarith
  then have "bits n - 1 < b" by (rule power_less_imp_less_exp [rotated]) simp
  then show ?thesis by linarith
qed

lemma fsub_one_nine_tenths:
  "fsub one \<lparr>mant = 8106479329266893, expo = - 53\<rparr> = \<lparr>mant = 900719925474099, expo = - 53\<rparr>"
proof -
  have "bits 900719925474099 - 53 = 0"
    using bits_b by simp
  then show ?thesis
    by (simp add: fsub_def one_def round_mant_def Let_def)
qed

lemma round_trip_tenth: "fval (fsub one (fsub one tenth)) \<noteq> fval tenth"
  by (simp only: fsub_one_tenth fsub_one_nine_tenths) (simp add: fval_def tenth_def)

lemma fval_powr: "fval f = of_int (mant f) * 2 powr of_int (expo f)"
proof (cases "0 \<le> expo f")
  case True
  then have "(2::real) powr of_int (expo f) = 2 ^ nat (expo f)"
    by (simp add: powr_real_of_int)
  with True show ?thesis by (simp add: fval_def)
next
  case False
  then have "(2::real) powr of_int (expo f) = inverse (2 ^ nat (- expo f))"
    by (simp add: powr_real_of_int)
  with False show ?thesis by (simp add: fval_def divide_inverse)
qed

lemma pow2_powr: "0 \<le> j \<Longrightarrow> (2::real) ^ nat j = 2 powr of_int j"
  by (simp add: powr_real_of_int)

lemma bits_double: "0 < a \<Longrightarrow> bits (2 * a) = Suc (bits a)"
  by (simp add: bits_pos)

lemma bits_mult_pow2: "0 < a \<Longrightarrow> bits (a * 2 ^ j) = bits a + j"
proof (induction j)
  case 0
  then show ?case by simp
next
  case (Suc j)
  then have "bits (2 * (a * 2 ^ j)) = Suc (bits (a * 2 ^ j))"
    by (intro bits_double) simp
  with Suc show ?case by (simp add: mult.commute mult.left_commute)
qed

lemma round_mant_small: "bits (nat \<bar>m\<bar>) \<le> 53 \<Longrightarrow> round_mant m e = \<lparr>mant = m, expo = e\<rparr>"
  by (simp add: round_mant_def)

lemma round_mant_dvd:
  assumes "2 ^ (bits (nat \<bar>m\<bar>) - 53) dvd m"
  shows "fval (round_mant m e) = of_int m * 2 powr of_int e"
proof (cases "bits (nat \<bar>m\<bar>) - 53 = 0")
  case True
  then show ?thesis by (simp add: round_mant_def fval_powr)
next
  case False
  let ?k = "bits (nat \<bar>m\<bar>) - 53"
  from assms have r: "m mod 2 ^ ?k = 0" by (simp add: mod_eq_0_iff_dvd)
  have half: "(0::int) < 2 ^ (?k - 1)" by simp
  have rm: "round_mant m e = \<lparr>mant = m div 2 ^ ?k, expo = e + int ?k\<rparr>"
    using False r half by (simp add: round_mant_def Let_def)
  have m: "m = (m div 2 ^ ?k) * 2 ^ ?k"
    using assms by simp
  have "fval (round_mant m e) = of_int (m div 2 ^ ?k) * 2 powr (of_int e + real ?k)"
    by (simp add: rm fval_powr)
  also have "\<dots> = of_int (m div 2 ^ ?k) * 2 ^ ?k * 2 powr of_int e"
    by (simp add: powr_add powr_realpow)
  also have "of_int (m div 2 ^ ?k) * (2::real) ^ ?k = of_int ((m div 2 ^ ?k) * 2 ^ ?k)"
    by simp
  also have "\<dots> = of_int m" using m by simp
  finally show ?thesis .
qed

lemma scale_int:
  assumes "of_int m * 2 powr of_int e = (of_int n :: real) * 2 powr of_int f" and "e \<le> f"
  shows "m = n * 2 ^ nat (f - e)"
proof -
  have "(of_int m :: real) = of_int m * 2 powr of_int e * 2 powr (- of_int e)"
    by (simp add: powr_minus)
  also have "\<dots> = of_int n * (2 powr of_int f * 2 powr (- of_int e))"
    by (simp add: assms(1))
  also have "2 powr of_int f * 2 powr (- of_int e) = (2::real) powr of_int (f - e)"
    by (simp flip: powr_add)
  also have "\<dots> = 2 ^ nat (f - e)"
    using assms(2) by (simp add: pow2_powr)
  finally have "(of_int m :: real) = of_int (n * 2 ^ nat (f - e))" by simp
  then show ?thesis by (simp only: of_int_eq_iff)
qed

lemma round_mant_representable:
  assumes eq: "of_int m * 2 powr of_int e = (of_int mx :: real) * 2 powr of_int ex"
    and small: "\<bar>mx\<bar> < 2 ^ 53"
  shows "fval (round_mant m e) = of_int m * 2 powr of_int e"
proof (cases "e \<le> ex")
  case True
  let ?j = "nat (ex - e)"
  have m: "m = mx * 2 ^ ?j" using eq True by (rule scale_int)
  show ?thesis
  proof (cases "mx = 0")
    case True
    with m have "m = 0" by simp
    then show ?thesis by (simp add: round_mant_small bits_0 fval_powr)
  next
    case False
    then have pos: "0 < nat \<bar>mx\<bar>" by simp
    have "nat \<bar>m\<bar> = nat \<bar>mx\<bar> * 2 ^ ?j"
      by (simp add: m abs_mult nat_mult_distrib nat_power_eq)
    then have b: "bits (nat \<bar>m\<bar>) = bits (nat \<bar>mx\<bar>) + ?j"
      using pos by (simp add: bits_mult_pow2)
    have "nat \<bar>mx\<bar> < 2 ^ 53" using small by (simp add: nat_less_iff)
    then have "bits (nat \<bar>mx\<bar>) \<le> 53" by (rule bits_le)
    with b have "bits (nat \<bar>m\<bar>) - 53 \<le> ?j" by linarith
    then have "(2::int) ^ (bits (nat \<bar>m\<bar>) - 53) dvd 2 ^ ?j"
      by (rule le_imp_power_dvd)
    then have "2 ^ (bits (nat \<bar>m\<bar>) - 53) dvd m"
      unfolding m by (rule dvd_mult)
    then show ?thesis by (rule round_mant_dvd)
  qed
next
  case False
  then have le: "ex \<le> e" by simp
  have mx: "mx = m * 2 ^ nat (e - ex)" using eq [symmetric] le by (rule scale_int)
  have "\<bar>m\<bar> \<le> \<bar>m\<bar> * 2 ^ nat (e - ex)"
    by (simp add: mult_le_cancel_left1)
  also have "\<dots> = \<bar>mx\<bar>" by (simp add: mx abs_mult)
  finally have "\<bar>m\<bar> < 2 ^ 53" using small by simp
  then have "nat \<bar>m\<bar> < 2 ^ 53" by (simp add: nat_less_iff)
  then have "bits (nat \<bar>m\<bar>) \<le> 53" by (rule bits_le)
  then show ?thesis by (simp add: round_mant_small fval_powr)
qed

lemma fsub_exact_value:
  "of_int (mant a * 2 ^ nat (expo a - min (expo a) (expo b))
           - mant b * 2 ^ nat (expo b - min (expo a) (expo b)))
     * 2 powr of_int (min (expo a) (expo b)) = fval a - fval b"
proof -
  let ?e = "min (expo a) (expo b)"
  have shift: "(2::real) ^ nat (x - ?e) * 2 powr of_int ?e = 2 powr of_int x" if "?e \<le> x" for x
  proof -
    have "(2::real) ^ nat (x - ?e) = 2 powr of_int (x - ?e)"
      using that by (simp add: pow2_powr)
    then show ?thesis by (simp flip: powr_add)
  qed
  have "of_int (mant a * 2 ^ nat (expo a - ?e) - mant b * 2 ^ nat (expo b - ?e)) * 2 powr of_int ?e
      = of_int (mant a) * ((2::real) ^ nat (expo a - ?e) * 2 powr of_int ?e)
        - of_int (mant b) * ((2::real) ^ nat (expo b - ?e) * 2 powr of_int ?e)"
    by (simp add: algebra_simps)
  also have "\<dots> = fval a - fval b"
    by (simp only: shift [of "expo a"] shift [of "expo b"] min.cobounded1 min.cobounded2 fval_powr)
  finally show ?thesis .
qed

lemma fsub_representable:
  assumes "fval a - fval b = of_int mx * 2 powr of_int ex" and "\<bar>mx\<bar> < 2 ^ 53"
  shows "fval (fsub a b) = fval a - fval b"
proof -
  let ?e = "min (expo a) (expo b)"
  let ?m = "mant a * 2 ^ nat (expo a - ?e) - mant b * 2 ^ nat (expo b - ?e)"
  have v: "of_int ?m * 2 powr of_int ?e = fval a - fval b" by (rule fsub_exact_value)
  have "fval (round_mant ?m ?e) = of_int ?m * 2 powr of_int ?e"
    using assms(2) by (intro round_mant_representable [where mx = mx and ex = ex]) (simp_all only: v assms(1))
  then show ?thesis
    by (simp only: fsub_def Let_def v)
qed

lemma fval_one: "fval one = 1"
  by (simp add: fval_def one_def)

lemma fsub_one_twice:
  assumes "\<bar>mant x\<bar> < 2 ^ 53" and "fval (fsub one x) = 1 - fval x"
  shows "fval (fsub one (fsub one x)) = fval x"
proof -
  have "fval one - fval (fsub one x) = fval x"
    by (simp add: fval_one assms(2))
  then have "fval one - fval (fsub one x) = of_int (mant x) * 2 powr of_int (expo x)"
    by (simp only: fval_powr [of x])
  then have "fval (fsub one (fsub one x)) = fval one - fval (fsub one x)"
    using assms(1) by (rule fsub_representable)
  then show ?thesis by (simp add: fval_one assms(2))
qed

section \<open>The round trip between similarity and dissimilarity\<close>

lemma valid_square: "valid S \<longleftrightarrow> square (length (labels S)) (matrix S)"
  by (auto simp: valid_def square_def list_all_iff)

lemma square_map: "square n M \<Longrightarrow> square n (map (map f) M)"
  by (auto simp: square_def)

lemma from_similarity_matrix_returns:
  "valid S \<Longrightarrow> from_similarity_matrix S =
     Inr \<lparr>matrix = map (map (fsub one)) (matrix S), labels = labels S\<rparr>"
  by (simp add: from_similarity_matrix_def valid_square square_map init_square)

lemma from_rdm_returns:
  "valid D \<Longrightarrow> from_rdm D = Inr \<lparr>matrix = map (map (fsub one)) (matrix D), labels = labels D\<rparr>"
  by (simp add: from_rdm_def valid_square square_map init_square)

lemma round_trip_returns:
  assumes "valid S"
  shows "round_trip S =
     Inr \<lparr>matrix = map (map (\<lambda>x. fsub one (fsub one x))) (matrix S), labels = labels S\<rparr>"
proof -
  let ?D = "\<lparr>matrix = map (map (fsub one)) (matrix S), labels = labels S\<rparr>"
  have "valid ?D" using assms by (simp add: valid_square square_map)
  then have "from_rdm ?D = Inr \<lparr>matrix = map (map (fsub one)) (matrix ?D), labels = labels ?D\<rparr>"
    by (rule from_rdm_returns)
  then show ?thesis
    using assms by (simp add: round_trip_def from_similarity_matrix_returns comp_def)
qed

text \<open>
  Claim C7, as amended.  For every similarity matrix of floats, the round trip through
  \<open>RDM.from_similarity_matrix\<close> and \<open>SimilarityMatrix.from_rdm\<close> returns a matrix of
  the same size with the labels kept, and, entry by entry, it gives back the value of
  every entry \<open>x\<close> for which the first subtraction \<open>1 - x\<close> is exact, that is, not
  rounded.  Nothing is said of an entry whose difference from 1 is rounded.
\<close>

theorem round_trip_entry_by_entry:
  assumes "valid S"
  shows "\<exists>R. round_trip S = Inr R \<and> labels R = labels S \<and>
           square (length (labels S)) (matrix R) \<and>
           (\<forall>i < length (labels S). \<forall>j < length (labels S).
              \<bar>mant (matrix S ! i ! j)\<bar> < 2 ^ 53 \<and>
              fval (fsub one (matrix S ! i ! j)) = 1 - fval (matrix S ! i ! j) \<longrightarrow>
              fval (matrix R ! i ! j) = fval (matrix S ! i ! j))"
proof -
  let ?n = "length (labels S)"
  let ?R = "\<lparr>matrix = map (map (\<lambda>x. fsub one (fsub one x))) (matrix S), labels = labels S\<rparr>"
  have ret: "round_trip S = Inr ?R" using assms by (rule round_trip_returns)
  have sq: "square ?n (matrix S)" using assms by (simp add: valid_square)
  then have sqR: "square ?n (matrix ?R)" by (simp add: square_map)
  have entry: "matrix ?R ! i ! j = fsub one (fsub one (matrix S ! i ! j))"
    if "i < ?n" and "j < ?n" for i j
    using sq that by (simp add: square_def)
  have "fval (matrix ?R ! i ! j) = fval (matrix S ! i ! j)"
    if "i < ?n" and "j < ?n" and "\<bar>mant (matrix S ! i ! j)\<bar> < 2 ^ 53"
      and "fval (fsub one (matrix S ! i ! j)) = 1 - fval (matrix S ! i ! j)" for i j
    unfolding entry [OF that(1,2)] using that(3,4) by (rule fsub_one_twice)
  with ret sqR show ?thesis by auto
qed

lemma fsub_one_one: "fsub one one = \<lparr>mant = 0, expo = 0\<rparr>"
  by (simp add: fsub_def one_def round_mant_def bits_0)

lemma fsub_one_zero: "fsub one \<lparr>mant = 0, expo = 0\<rparr> = one"
proof -
  have "bits 1 \<le> 53" by (rule bits_le) simp
  then have "bits (Suc 0) - 53 = 0" by simp
  then show ?thesis by (simp add: fsub_def one_def round_mant_def)
qed

lemma fsub_one_half: "fsub one half = half"
proof -
  have "bits 1 \<le> 53" by (rule bits_le) simp
  then have "bits (Suc 0) - 53 = 0" by simp
  then show ?thesis by (simp add: fsub_def one_def half_def round_mant_def)
qed

text \<open>
  In Python, \<^verbatim>\<open>1 - (1 - 0.1)\<close> is \<^verbatim>\<open>0.09999999999999998\<close>: the entry 0.1 of a similarity
  matrix comes back from the round trip as another float.
\<close>

theorem round_trip_tenth_counterexample:
  "round_trip sim_tenth =
     Inr \<lparr>matrix = [[one, \<lparr>mant = 900719925474099, expo = - 53\<rparr>],
                    [\<lparr>mant = 900719925474099, expo = - 53\<rparr>, one]],
          labels = [''a'', ''b'']\<rparr> \<and>
   fval \<lparr>mant = 900719925474099, expo = - 53\<rparr> \<noteq> fval tenth \<and>
   matrix sim_tenth ! 0 ! 1 = tenth"
proof -
  have "valid sim_tenth" by (simp add: valid_def sim_tenth_def)
  then have "round_trip sim_tenth =
     Inr \<lparr>matrix = [[one, \<lparr>mant = 900719925474099, expo = - 53\<rparr>],
                    [\<lparr>mant = 900719925474099, expo = - 53\<rparr>, one]],
          labels = [''a'', ''b'']\<rparr>"
    by (simp add: round_trip_returns sim_tenth_def fsub_one_one fsub_one_zero fsub_one_tenth
        fsub_one_nine_tenths)
  moreover have "fval \<lparr>mant = 900719925474099, expo = - 53\<rparr> \<noteq> fval tenth"
    by (simp add: fval_def tenth_def)
  moreover have "matrix sim_tenth ! 0 ! 1 = tenth"
    by (simp add: sim_tenth_def)
  ultimately show ?thesis by blast
qed

theorem round_trip_entry_by_entry_witness:
  "valid sim_mixed \<and>
   (\<exists>R. round_trip sim_mixed = Inr R \<and> labels R = labels sim_mixed \<and>
        fval (matrix R ! 0 ! 1) = fval half \<and> matrix sim_mixed ! 0 ! 1 = half \<and>
        matrix sim_mixed ! 0 ! 2 = tenth)"
proof -
  have v: "valid sim_mixed" by (simp add: valid_def sim_mixed_def)
  have e: "matrix sim_mixed ! 0 ! 1 = half" "matrix sim_mixed ! 0 ! 2 = tenth"
    by (simp_all add: sim_mixed_def)
  have n: "length (labels sim_mixed) = 3" by (simp add: sim_mixed_def)
  have x: "\<bar>mant half\<bar> < 2 ^ 53 \<and> fval (fsub one half) = 1 - fval half"
    by (simp add: fsub_one_half) (simp add: half_def fval_def)
  from round_trip_entry_by_entry [OF v]
  obtain R where R: "round_trip sim_mixed = Inr R" "labels R = labels sim_mixed"
    and all: "\<forall>i < length (labels sim_mixed). \<forall>j < length (labels sim_mixed).
              \<bar>mant (matrix sim_mixed ! i ! j)\<bar> < 2 ^ 53 \<and>
              fval (fsub one (matrix sim_mixed ! i ! j)) = 1 - fval (matrix sim_mixed ! i ! j) \<longrightarrow>
              fval (matrix R ! i ! j) = fval (matrix sim_mixed ! i ! j)"
    by blast
  have "(0::nat) < 3" and "(1::nat) < 3" by simp_all
  with all n e(1) x have "fval (matrix R ! 0 ! 1) = fval half"
    by metis
  with v R e show ?thesis by blast
qed

section \<open>Matrices that squareform accepts\<close>

lemma square_shape: "square n M \<Longrightarrow> shape0 M = n \<and> shape1 M = n"
  by (cases M) (auto simp: square_def shape0_def shape1_def)

lemma squareform_valid:
  assumes "is_valid_dm n M"
  shows "squareform M = Inr (upper_triangle M)"
proof -
  from assms have "square n M" and sym: "symmetric M"
    and zd: "list_all (\<lambda>i. M ! i ! i = 0) [0..<length M]"
    by (simp_all add: is_valid_dm_def zero_diagonal_def)
  then have "shape0 M = shape1 M" using square_shape [of n M] by simp
  with sym zd show ?thesis
    by (simp add: squareform_def upper_triangle_def)
qed

lemma upper_triangle_length:
  "length M = length N \<Longrightarrow> length (upper_triangle M) = length (upper_triangle N)"
  by (simp add: upper_triangle_def length_concat comp_def)

lemma is_valid_dm_permuted:
  assumes "is_valid_dm n M" and "set perm \<subseteq> {..<n}" and "length perm = n"
  shows "is_valid_dm n (ix_select M perm perm)"
proof -
  from assms(1) have sq: "square n M" and sym: "symmetric M" and zd: "zero_diagonal M"
    by (simp_all add: is_valid_dm_def)
  have len: "length M = n" using sq by (simp add: square_def)
  have p: "perm ! a < n" if "a < n" for a
    using assms(2,3) that by (metis lessThan_iff nth_mem subsetD)
  have sq': "square n (ix_select M perm perm)"
    using ix_select_square [of perm M] assms(3) by simp
  have len': "length (ix_select M perm perm) = n" using sq' by (simp add: square_def)
  have "ix_select M perm perm ! a ! b = ix_select M perm perm ! b ! a"
    if "a < n" and "b < n" for a b
    using that assms(3) p [of a] p [of b] sym len by (simp add: ix_select_nth symmetric_nth)
  then have sym': "symmetric (ix_select M perm perm)"
    by (simp add: symmetric_def list_all_length len')
  have "ix_select M perm perm ! a ! a = 0" if "a < n" for a
    using that assms(3) p [of a] zd len
    by (simp add: ix_select_nth zero_diagonal_def list_all_length)
  then have "zero_diagonal (ix_select M perm perm)"
    by (simp add: zero_diagonal_def list_all_length len')
  with sq' sym' show ?thesis by (simp add: is_valid_dm_def)
qed

lemma ix_perm_in_range:
  assumes "square n M" and "set perm \<subseteq> {..<n}"
  shows "ix_perm M perm = Inr (ix_select M perm perm)"
proof -
  have "list_all (\<lambda>i. i < shape0 M \<and> i < shape1 M) perm"
    using assms(2) square_shape [OF assms(1)] by (auto simp: list_all_iff)
  then show ?thesis by (simp add: ix_perm_def)
qed

section \<open>The test returns\<close>

lemma permutes_rangeD:
  "permutes_range P \<Longrightarrow> P n g = (perm, g') \<Longrightarrow> set perm = {..<n} \<and> length perm = n"
proof -
  assume P: "permutes_range P" and eq: "P n g = (perm, g')"
  from P have "distinct (fst (P n g))" and s: "set (fst (P n g)) = {..<n}"
    by (simp_all add: permutes_range_def)
  with eq have d: "distinct perm" and s': "set perm = {..<n}" by simp_all
  from d have "length perm = card (set perm)" by (simp add: distinct_card)
  with s' show ?thesis by simp
qed

lemma r_perms_loop_returns:
  assumes "is_valid_dm n rdm_2" and "permutes_range P"
    and "length c1 = length (upper_triangle rdm_2)"
  shows "\<exists>rs g'. r_perms_loop P n c1 rdm_2 k g = Inr (rs, g')"
proof (induction k arbitrary: g)
  case 0
  show ?case by simp
next
  case (Suc k)
  obtain perm g1 where P: "P n g = (perm, g1)" by (cases "P n g")
  from permutes_rangeD [OF assms(2) P] have perm: "set perm \<subseteq> {..<n}" "length perm = n"
    by simp_all
  from assms(1) have sq: "square n rdm_2" by (simp add: is_valid_dm_def)
  have ix: "ix_perm rdm_2 perm = Inr (ix_select rdm_2 perm perm)"
    using sq perm(1) by (rule ix_perm_in_range)
  have v: "is_valid_dm n (ix_select rdm_2 perm perm)"
    using assms(1) perm by (rule is_valid_dm_permuted)
  then have sf: "squareform (ix_select rdm_2 perm perm) = Inr (upper_triangle (ix_select rdm_2 perm perm))"
    by (rule squareform_valid)
  have "length (ix_select rdm_2 perm perm) = length rdm_2"
    using v sq by (simp add: is_valid_dm_def square_def)
  then have "length (upper_triangle (ix_select rdm_2 perm perm)) = length (upper_triangle rdm_2)"
    by (rule upper_triangle_length)
  then have "length (upper_triangle (ix_select rdm_2 perm perm)) = length c1"
    using assms(3) by simp
  then have "corrcoef c1 (upper_triangle (ix_select rdm_2 perm perm)) =
      Inr (if length c1 < 2 \<or> cov c1 c1 = 0 \<or>
              cov (upper_triangle (ix_select rdm_2 perm perm))
                (upper_triangle (ix_select rdm_2 perm perm)) = 0
           then NaN
           else Num (cov c1 (upper_triangle (ix_select rdm_2 perm perm)) / sqrt (cov c1 c1)
                  / sqrt (cov (upper_triangle (ix_select rdm_2 perm perm))
                       (upper_triangle (ix_select rdm_2 perm perm)))))"
    by (simp add: corrcoef_def)
  then obtain r where r: "corrcoef c1 (upper_triangle (ix_select rdm_2 perm perm)) = Inr r"
    by blast
  from Suc [of g1] obtain rs g' where rest: "r_perms_loop P n c1 rdm_2 k g1 = Inr (rs, g')"
    by blast
  have "r_perms_loop P n c1 rdm_2 (Suc k) g = Inr (r # rs, g')"
    by (simp only: r_perms_loop.simps P prod.case ix sum.case sf r rest)
  then show ?case by blast
qed

section \<open>The rank percentile\<close>

lemma map_Num_num_of: "NaN \<notin> set rs \<Longrightarrow> map Num (map num_of rs) = rs"
proof (induction rs)
  case Nil
  then show ?case by simp
next
  case (Cons r rs)
  then show ?case by (cases r) simp_all
qed

lemma p_value_of_formula:
  "rs \<noteq> [] \<Longrightarrow>
   p_value_of rs (Num s) =
     Num (1 - real (length (filter (\<lambda>x. np_less_eq x s) rs)
                    + length (filter (\<lambda>x. np_less x s) rs)
                    + (if length (filter (\<lambda>x. np_less x s) rs)
                          < length (filter (\<lambda>x. np_less_eq x s) rs) then 1 else 0)) * 50
                 / real (length rs) / 100)"
  by (simp add: p_value_of_def percentileofscore_def Let_def)

lemma p_value_of_clean:
  assumes "rs \<noteq> []" and "NaN \<notin> set rs" and "Num s \<notin> set rs"
  shows "p_value_of rs (Num s) = Num (fraction_greater_eq rs s)"
proof -
  let ?xs = "map num_of rs"
  have rs: "map Num ?xs = rs" using assms(2) by (rule map_Num_num_of)
  have ne: "?xs \<noteq> []" using assms(1) by simp
  have "s \<notin> set ?xs"
  proof
    assume "s \<in> set ?xs"
    then have "Num s \<in> Num ` set ?xs" by (rule imageI)
    then have "Num s \<in> set (map Num ?xs)" by (simp only: set_map)
    with rs assms(3) show False by simp
  qed
  with ne have "p_value_of (map Num ?xs) (Num s) = Num (fraction_greater_eq (map Num ?xs) s)"
    by (rule p_value_of_no_ties)
  then show ?thesis by (simp only: rs)
qed

text \<open>
  Claim C3, as amended.  For every pair of \<open>n\<close> by \<open>n\<close> matrices that are symmetric with a
  zero diagonal, every generator of permutations, every observed correlation that is a
  number and every \<open>n_perms\<close>, \<open>randomisation_p\<close> returns.  Its loop produces the null
  distribution \<open>rs\<close> of \<open>n_perms\<close> values, the \<open>i\<close>-th being the correlation of the upper
  triangle of \<open>rdm_1\<close> with that of \<open>rdm_2\<close> permuted by the \<open>i\<close>-th draw, and the value
  returned is \<open>1 - percentileofscore(rs, observed_r) / 100\<close>.  For \<open>n_perms > 0\<close> the
  percentile is \<open>(left + right + (1 if left < right else 0)) * 50 / n_perms\<close>, with
  \<open>left\<close> the number of null values below the observed one and \<open>right\<close> the number not
  above it; and when no null value is not-a-number or equal to the observed correlation,
  the value returned is the fraction of the null distribution that is greater than or
  equal to the observed correlation.
\<close>

theorem randomisation_p_rank_p_value:
  assumes "is_valid_dm n rdm_1" and "is_valid_dm n rdm_2" and "permutes_range P"
  shows "\<exists>rs g'.
     r_perms_loop P n (upper_triangle rdm_1) rdm_2 n_perms g = Inr (rs, g') \<and>
     length rs = n_perms \<and>
     (\<forall>i < n_perms.
        permuted_r (upper_triangle rdm_1) rdm_2 (draws P n n_perms g ! i) = Inr (rs ! i)) \<and>
     randomisation_p P rdm_1 rdm_2 (Num observed_r) n_perms g =
       Inr (p_value_of rs (Num observed_r), g') \<and>
     (0 < n_perms \<longrightarrow>
        p_value_of rs (Num observed_r) =
          Num (1 - real (length (filter (\<lambda>x. np_less_eq x observed_r) rs)
                         + length (filter (\<lambda>x. np_less x observed_r) rs)
                         + (if length (filter (\<lambda>x. np_less x observed_r) rs)
                               < length (filter (\<lambda>x. np_less_eq x observed_r) rs)
                            then 1 else 0)) * 50
                      / real n_perms / 100)) \<and>
     (0 < n_perms \<and> NaN \<notin> set rs \<and> Num observed_r \<notin> set rs \<longrightarrow>
        p_value_of rs (Num observed_r) = Num (fraction_greater_eq rs observed_r))"
proof -
  let ?c1 = "upper_triangle rdm_1"
  have sf: "squareform rdm_1 = Inr ?c1" using assms(1) by (rule squareform_valid)
  have n: "shape0 rdm_1 = n"
    using assms(1) square_shape [of n rdm_1] by (simp add: is_valid_dm_def)
  have "length rdm_1 = length rdm_2"
    using assms(1,2) by (simp add: is_valid_dm_def square_def)
  then have "length ?c1 = length (upper_triangle rdm_2)" by (rule upper_triangle_length)
  with assms(2,3) have "\<exists>rs g'. r_perms_loop P n ?c1 rdm_2 n_perms g = Inr (rs, g')"
    by (rule r_perms_loop_returns)
  then obtain rs g' where loop: "r_perms_loop P n ?c1 rdm_2 n_perms g = Inr (rs, g')"
    by blast
  have len: "length rs = n_perms" using loop by (rule r_perms_loop_length)
  have nth: "permuted_r ?c1 rdm_2 (draws P n n_perms g ! i) = Inr (rs ! i)" if "i < n_perms" for i
    using r_perms_loop_nth [OF loop that] by simp
  have ret: "randomisation_p P rdm_1 rdm_2 (Num observed_r) n_perms g =
      Inr (p_value_of rs (Num observed_r), g')"
    by (simp only: randomisation_p_def sf sum.case n loop prod.case)
  have formula: "p_value_of rs (Num observed_r) =
          Num (1 - real (length (filter (\<lambda>x. np_less_eq x observed_r) rs)
                         + length (filter (\<lambda>x. np_less x observed_r) rs)
                         + (if length (filter (\<lambda>x. np_less x observed_r) rs)
                               < length (filter (\<lambda>x. np_less_eq x observed_r) rs)
                            then 1 else 0)) * 50
                      / real n_perms / 100)" if "0 < n_perms"
  proof -
    from that len have "rs \<noteq> []" by auto
    from p_value_of_formula [OF this, of observed_r] show ?thesis by (simp only: len)
  qed
  have clean: "p_value_of rs (Num observed_r) = Num (fraction_greater_eq rs observed_r)"
    if "0 < n_perms" and "NaN \<notin> set rs" and "Num observed_r \<notin> set rs"
  proof -
    from that(1) len have "rs \<noteq> []" by auto
    then show ?thesis using that(2,3) by (rule p_value_of_clean)
  qed
  show ?thesis
  proof (intro exI [of _ rs] exI [of _ g'] conjI allI impI)
    show "r_perms_loop P n ?c1 rdm_2 n_perms g = Inr (rs, g')" by (rule loop)
    show "length rs = n_perms" by (rule len)
    show "permuted_r ?c1 rdm_2 (draws P n n_perms g ! i) = Inr (rs ! i)" if "i < n_perms" for i
      using that by (rule nth)
    show "randomisation_p P rdm_1 rdm_2 (Num observed_r) n_perms g =
        Inr (p_value_of rs (Num observed_r), g')" by (rule ret)
    show "p_value_of rs (Num observed_r) =
          Num (1 - real (length (filter (\<lambda>x. np_less_eq x observed_r) rs)
                         + length (filter (\<lambda>x. np_less x observed_r) rs)
                         + (if length (filter (\<lambda>x. np_less x observed_r) rs)
                               < length (filter (\<lambda>x. np_less_eq x observed_r) rs)
                            then 1 else 0)) * 50
                      / real n_perms / 100)" if "0 < n_perms"
      using that by (rule formula)
    show "p_value_of rs (Num observed_r) = Num (fraction_greater_eq rs observed_r)"
      if "0 < n_perms \<and> NaN \<notin> set rs \<and> Num observed_r \<notin> set rs"
      using that clean by blast
  qed
qed

section \<open>What correlate\_with does with a degenerate correlation\<close>

lemma correlate_with_by_corrcoef: "correlate_with self other = correlate_with_by corrcoef self other"
  by (simp add: correlate_with_def correlate_with_by_def)

text \<open>
  Claim C8, as amended.  \<open>correlate_with\<close> detects nothing.  For two matrices that pass
  its assertion and the checks of \<open>squareform\<close>, it returns the very result that
  \<open>corrcoef\<close> gives for their two upper triangles, whatever function \<open>corrcoef\<close> is; so
  when \<open>corrcoef\<close> returns not-a-number, as numpy does for a triangle that is
  constantly 1, \<open>correlate_with\<close> returns that not-a-number as an ordinary value.
\<close>

theorem correlate_with_returns_corrcoef_value:
  assumes "is_valid_dm n (matrix self)" and "is_valid_dm n (matrix other)"
    and "length (labels self) = length (labels other)"
  shows "correlate_with_by cc self other =
           cc (upper_triangle (matrix self)) (upper_triangle (matrix other)) \<and>
         length (upper_triangle (matrix self)) = length (upper_triangle (matrix other)) \<and>
         (cc (upper_triangle (matrix self)) (upper_triangle (matrix other)) = Inr NaN \<longrightarrow>
            correlate_with_by cc self other = Inr NaN)"
proof -
  have s1: "squareform (matrix self) = Inr (upper_triangle (matrix self))"
    using assms(1) by (rule squareform_valid)
  have s2: "squareform (matrix other) = Inr (upper_triangle (matrix other))"
    using assms(2) by (rule squareform_valid)
  have "length (matrix self) = length (matrix other)"
    using assms(1,2) by (simp add: is_valid_dm_def square_def)
  then have len: "length (upper_triangle (matrix self)) = length (upper_triangle (matrix other))"
    by (rule upper_triangle_length)
  have "correlate_with_by cc self other =
      cc (upper_triangle (matrix self)) (upper_triangle (matrix other))"
    using assms(3) by (simp add: correlate_with_by_def s1 s2)
  with len show ?thesis by simp
qed

lemma is_valid_dm_const3: "is_valid_dm 3 (matrix const3)"
  by (simp add: is_valid_dm_def square_def symmetric_def zero_diagonal_def const3_def
      eval_nat_numeral)

lemma upper_triangle_const3: "upper_triangle (matrix const3) = [1, 1, 1]"
  by (simp add: upper_triangle_def const3_def eval_nat_numeral)

lemma corrcoef_ones: "corrcoef [1, 1, 1] [1, 1, 1] = Inr NaN"
  by (simp add: corrcoef_def cov_def mean_def)

theorem correlate_with_returns_corrcoef_value_witness:
  "is_valid_dm 3 (matrix const3) \<and> length (labels const3) = length (labels const3) \<and>
   corrcoef (upper_triangle (matrix const3)) (upper_triangle (matrix const3)) = Inr NaN \<and>
   correlate_with_by corrcoef const3 const3 = Inr NaN"
proof -
  have v: "is_valid_dm 3 (matrix const3)" by (rule is_valid_dm_const3)
  have l: "length (labels const3) = length (labels const3)" by simp
  have c: "corrcoef (upper_triangle (matrix const3)) (upper_triangle (matrix const3)) = Inr NaN"
    by (simp only: upper_triangle_const3 corrcoef_ones)
  from correlate_with_returns_corrcoef_value [OF v v l, of corrcoef] c
  have "correlate_with_by corrcoef const3 const3 = Inr NaN" by blast
  with v l c show ?thesis by blast
qed

lemma is_valid_dm_rdm3: "is_valid_dm 3 rdm3"
  by (simp add: is_valid_dm_def square_def symmetric_def zero_diagonal_def rdm3_def
      eval_nat_numeral)

lemma upper_triangle_rdm3: "upper_triangle rdm3 = [1, 2, 3]"
  by (simp add: upper_triangle_def rdm3_def eval_nat_numeral)

theorem randomisation_p_rank_p_value_witness:
  "is_valid_dm 3 rdm3 \<and> permutes_range rotating \<and>
   r_perms_loop rotating 3 [1, 2, 3] rdm3 (Suc 0) (Suc 0) = Inr ([Num (- 1 / 2)], 2) \<and>
   fraction_greater_eq [Num (- 1 / 2)] (1 / 2) = 0 \<and>
   randomisation_p rotating rdm3 rdm3 (Num (1 / 2)) (Suc 0) (Suc 0) = Inr (Num 0, 2)"
proof -
  have v: "is_valid_dm 3 rdm3" by (rule is_valid_dm_rdm3)
  have p: "permutes_range rotating" by (rule permutes_range_rotating)
  have l: "r_perms_loop rotating 3 [1, 2, 3] rdm3 (Suc 0) (Suc 0) = Inr ([Num (- 1 / 2)], 2)"
    by (rule null_from_1)
  have f: "fraction_greater_eq [Num (- 1 / 2)] (1 / 2) = 0"
    by (simp add: fraction_greater_eq_def)
  from randomisation_p_rank_p_value [OF v v p, of "Suc 0" "Suc 0" "1 / 2"]
  obtain rs g' where
    loop: "r_perms_loop rotating 3 (upper_triangle rdm3) rdm3 (Suc 0) (Suc 0) = Inr (rs, g')"
    and ret: "randomisation_p rotating rdm3 rdm3 (Num (1 / 2)) (Suc 0) (Suc 0) =
       Inr (p_value_of rs (Num (1 / 2)), g')"
    and clean: "0 < Suc 0 \<and> NaN \<notin> set rs \<and> Num (1 / 2) \<notin> set rs \<longrightarrow>
        p_value_of rs (Num (1 / 2)) = Num (fraction_greater_eq rs (1 / 2))"
    by blast
  from loop l have rs: "rs = [Num (- 1 / 2)]" and g': "g' = 2"
    by (simp_all only: upper_triangle_rdm3 sum.inject prod.inject)
  have "p_value_of rs (Num (1 / 2)) = Num 0"
    using clean f by (simp add: rs)
  with ret g' have "randomisation_p rotating rdm3 rdm3 (Num (1 / 2)) (Suc 0) (Suc 0) = Inr (Num 0, 2)"
    by simp
  with v p l f show ?thesis by blast
qed

section \<open>The transform of hebart\_comparison.py on selected words\<close>














end
